theory Spec2Isabelle
  imports Complex_Main
begin

section \<open>Record model (tunadex/extraction/schema.py)\<close>

text \<open>
  Python strings are modelled as \<^typ>\<open>string\<close>, one \<^typ>\<open>char\<close> per code point, which
  covers the code points 0 to 255. Python's unbounded \<open>int\<close> is \<^typ>\<open>int\<close>. The type
  variable \<open>'w\<close> stands for Python's \<open>float\<close>: the aggregation takes the float operations
  it uses as a parameter, so that nothing about them (such as associativity of the
  addition) is assumed; the weight outlier check, which only compares, works on
  \<^typ>\<open>real\<close>. Where two classes have a field of the same name, the later one carries a
  prefix (\<open>st_\<close>, \<open>ct_\<close>, \<open>email_\<close>, \<open>payload_\<close>), and \<open>notes\<close>, a keyword of Isabelle, is \<open>line_notes\<close>.
\<close>

datatype AttachmentType = PDF | EXCEL | CSV | IMAGE | OTHER

datatype AnomalyType =
  DOUBLE_COUNT | MISSING_PAPERWORK | AWB_MISMATCH | WEIGHT_OUTLIER | MISSING_AWB | MISSING_DATA

datatype Severity = WARNING | ERROR

datatype date = Date int int int

datatype datetime = DateTime date int int int

record AttachmentMeta =
  attachment_id :: string
  filename :: string
  mime_type :: string
  size_bytes :: int
  attachment_type :: AttachmentType
  drive_url :: "string option"

record EmailDetail =
  message_id :: string
  thread_id :: string
  subject :: string
  sender :: string
  email_date :: "datetime option"
  body_text :: string
  body_html :: string
  attachments :: "AttachmentMeta list"

record 'w ShipmentLine =
  customer_name :: string
  company :: "string option"
  species :: string
  boxes :: "int option"
  weight_lbs :: "'w option"
  size_category :: "string option"
  count_per_box :: "int option"
  line_notes :: "string option"

record 'w Shipment =
  awb :: string
  date :: date
  supplier :: string
  freight_forwarder :: "string option"
  lines :: "'w ShipmentLine list"
  source_email_ids :: "string list"

text \<open>
  The description of an anomaly is an f-string in the source. The model keeps the values
  that the f-string interpolates, one constructor per message, and leaves the rendering
  of numbers and dates as text out.
\<close>

datatype 'w description =
  DuplicateLineItems string nat "((string \<times> string) \<times> nat) list"
| SplitShipment string nat
| MentionsUnextractedAwb string string
| NoAwb string date
| NonStandardFormat string
| OutsideTypicalRange string string string 'w 'w 'w

record 'w Anomaly =
  anomaly_type :: AnomalyType
  severity :: Severity
  description :: "'w description"
  related_awb :: "string option"
  related_emails :: "string list"

record 'w SpeciesTotal =
  st_boxes :: int
  st_weight_lbs :: 'w

record 'w CustomerTotal =
  ct_boxes :: int
  ct_weight_lbs :: 'w
  order_count :: int

record 'w ShipmentTotals =
  total_boxes :: int
  total_weight_lbs :: 'w
  species_breakdown :: "(string \<times> 'w SpeciesTotal) list"
  customer_breakdown :: "(string \<times> 'w CustomerTotal) list"

record 'w DailyPayload =
  payload_date :: date
  run_timestamp :: datetime
  emails_processed :: int
  shipments :: "'w Shipment list"
  anomalies :: "'w Anomaly list"
  totals :: "'w ShipmentTotals"

datatype error = ValidationError

text \<open>
  \<open>ShipmentLine(customer_name=..., ...)\<close>: the class declares no validator and no field
  constraint, so for arguments of the declared types the construction stores them as
  they are.
\<close>

definition mk_ShipmentLine ::
  "string \<Rightarrow> string option \<Rightarrow> string \<Rightarrow> int option \<Rightarrow> 'w option \<Rightarrow> string option \<Rightarrow>
   int option \<Rightarrow> string option \<Rightarrow> error + 'w ShipmentLine" where
  "mk_ShipmentLine cn co sp bx wt sc cpb nt =
     Inr \<lparr>customer_name = cn, company = co, species = sp, boxes = bx, weight_lbs = wt,
          size_category = sc, count_per_box = cpb, line_notes = nt\<rparr>"

section \<open>Strings and the regular expressions of the source\<close>

definition code :: "char \<Rightarrow> nat" where
  "code c = of_char c"

text \<open>\<open>\d\<close> of Python's \<open>re\<close> on a \<open>str\<close> pattern: a decimal digit.\<close>

definition is_digit :: "char \<Rightarrow> bool" where
  "is_digit c \<longleftrightarrow> 48 \<le> code c \<and> code c \<le> 57"

text \<open>\<open>\s\<close>: what \<open>str.isspace\<close> accepts.\<close>

definition is_space :: "char \<Rightarrow> bool" where
  "is_space c \<longleftrightarrow> (9 \<le> code c \<and> code c \<le> 13) \<or> (28 \<le> code c \<and> code c \<le> 32)
     \<or> code c = 133 \<or> code c = 160"

text \<open>\<open>\w\<close>: what \<open>str.isalnum\<close> accepts, and the underscore.\<close>

definition is_word :: "char \<Rightarrow> bool" where
  "is_word c \<longleftrightarrow> is_digit c \<or> (65 \<le> code c \<and> code c \<le> 90) \<or> code c = 95
     \<or> (97 \<le> code c \<and> code c \<le> 122)
     \<or> code c = 170 \<or> code c = 178 \<or> code c = 179 \<or> code c = 181 \<or> code c = 185
     \<or> code c = 186 \<or> (188 \<le> code c \<and> code c \<le> 190)
     \<or> (192 \<le> code c \<and> code c \<le> 214) \<or> (216 \<le> code c \<and> code c \<le> 246)
     \<or> 248 \<le> code c"

text \<open>The character class \<open>[-\s]\<close>.\<close>

definition is_sep :: "char \<Rightarrow> bool" where
  "is_sep c \<longleftrightarrow> c = CHR ''-'' \<or> is_space c"

text \<open>\<open>str.lower\<close>, one character at a time.\<close>

definition lower_char :: "char \<Rightarrow> char" where
  "lower_char c =
     (if (65 \<le> code c \<and> code c \<le> 90) \<or> (192 \<le> code c \<and> code c \<le> 222 \<and> code c \<noteq> 215)
      then char_of (code c + 32) else c)"

definition lower :: "string \<Rightarrow> string" where
  "lower s = map lower_char s"

text \<open>\<open>\d{n}\<close> at the start of the text: the digits matched and the rest of the text.\<close>

fun digits :: "nat \<Rightarrow> string \<Rightarrow> (string \<times> string) option" where
  "digits 0 s = Some ([], s)"
| "digits (Suc n) [] = None"
| "digits (Suc n) (c # s) =
     (if is_digit c
      then (case digits n s of None \<Rightarrow> None | Some (m, r) \<Rightarrow> Some (c # m, r))
      else None)"

text \<open>
  \<open>re.compile(r"^\d{11}$").match(s)\<close>: eleven digits from the start of the string, then
  \<open>$\<close>, which holds at the end of the string and also before a newline that ends it.
\<close>

definition clean_pattern_match :: "string \<Rightarrow> bool" where
  "clean_pattern_match s =
     (case digits 11 s of None \<Rightarrow> False | Some (m, r) \<Rightarrow> r = [] \<or> r = [CHR 0x0A])"

section \<open>Anomaly detector (tunadex/anomaly/detector.py)\<close>

definition MISSING :: string where
  "MISSING = ''MISSING''"

subsection \<open>check_awb_consistency\<close>

text \<open>One turn of the loop over the shipments: the anomalies so far, extended.\<close>

definition awb_consistency_step :: "'w Anomaly list \<Rightarrow> 'w Shipment \<Rightarrow> 'w Anomaly list" where
  "awb_consistency_step anoms shipment =
     (if awb shipment = MISSING then
        anoms @ [\<lparr>anomaly_type = MISSING_AWB, severity = ERROR,
                  description = NoAwb (supplier shipment) (date shipment),
                  related_awb = None, related_emails = source_email_ids shipment\<rparr>]
      else if \<not> clean_pattern_match (awb shipment) then
        anoms @ [\<lparr>anomaly_type = AWB_MISMATCH, severity = WARNING,
                  description = NonStandardFormat (awb shipment),
                  related_awb = Some (awb shipment),
                  related_emails = source_email_ids shipment\<rparr>]
      else anoms)"

definition check_awb_consistency :: "'w Shipment list \<Rightarrow> 'w Anomaly list" where
  "check_awb_consistency ss = foldl awb_consistency_step [] ss"

subsection \<open>The AWB pattern (tunadex/config.py) and re.findall\<close>

definition next_char :: "string \<Rightarrow> char option" where
  "next_char s = (case s of [] \<Rightarrow> None | c # _ \<Rightarrow> Some c)"

text \<open>
  \<open>\b\<close> between the character before the position (none at the start of the text) and
  the character at it (none at the end): exactly one of them is a word character.
\<close>

definition word_boundary :: "char option \<Rightarrow> char option \<Rightarrow> bool" where
  "word_boundary p n \<longleftrightarrow>
     (case p of None \<Rightarrow> False | Some c \<Rightarrow> is_word c) \<noteq> (case n of None \<Rightarrow> False | Some c \<Rightarrow> is_word c)"

text \<open>
  \<open>[-\s]?\<close> is greedy: the matcher first takes a separator when there is one and, if the
  rest of the pattern then fails, tries again without taking it.
\<close>

definition opt_sep :: "string \<Rightarrow> (string \<times> string) list" where
  "opt_sep s =
     (case s of [] \<Rightarrow> [([], s)]
      | c # r \<Rightarrow> if is_sep c then [([c], r), ([], s)] else [([], s)])"

fun first_match :: "('a \<Rightarrow> 'b option) \<Rightarrow> 'a list \<Rightarrow> 'b option" where
  "first_match f [] = None"
| "first_match f (x # xs) = (case f x of Some y \<Rightarrow> Some y | None \<Rightarrow> first_match f xs)"

text \<open>The end of the pattern, \<open>\d{4})\b\<close>, after the text \<open>pre\<close> matched so far.\<close>

definition awb_group3 :: "string \<Rightarrow> string \<Rightarrow> string option" where
  "awb_group3 pre s =
     (case digits 4 s of None \<Rightarrow> None
      | Some (c, r) \<Rightarrow>
          if word_boundary (Some (last c)) (next_char r) then Some (pre @ c) else None)"

text \<open>\<open>\d{4}[-\s]?\<close> and then the end of the pattern.\<close>

definition awb_group2 :: "string \<Rightarrow> string \<Rightarrow> string option" where
  "awb_group2 pre s =
     (case digits 4 s of None \<Rightarrow> None
      | Some (b, r) \<Rightarrow> first_match (\<lambda>(q, r'). awb_group3 (pre @ b @ q) r') (opt_sep r))"

text \<open>
  \<open>AWB_PATTERN = r"\b(\d{3}[-\s]?\d{4}[-\s]?\d{4})\b"\<close> tried at one position of the text:
  \<open>prev\<close> is the character before the position, \<open>s\<close> the text from it on. The result
  is the text of the group, which is the whole match.
\<close>

definition awb_match :: "char option \<Rightarrow> string \<Rightarrow> string option" where
  "awb_match prev s =
     (if \<not> word_boundary prev (next_char s) then None
      else case digits 3 s of None \<Rightarrow> None
        | Some (a, r) \<Rightarrow> first_match (\<lambda>(p, r'). awb_group2 (a @ p) r') (opt_sep r))"

text \<open>
  \<open>re.findall(AWB_PATTERN, text)\<close>: the scan tries the pattern at each position from left
  to right; after a match \<open>m\<close> it goes on behind the match, otherwise at the next
  character.
\<close>

function findall_awb :: "char option \<Rightarrow> string \<Rightarrow> string list" where
  "findall_awb prev [] = []"
| "findall_awb prev (c # s) =
     (case awb_match prev (c # s) of
        Some m \<Rightarrow> m # findall_awb (Some (last m)) (drop (length m - 1) s)
      | None \<Rightarrow> findall_awb (Some c) s)"
  by pat_completeness auto
termination
  by (relation "measure (\<lambda>(p, s). length s)") auto

text \<open>\<open>re.sub(r"[-\s]", "", awb)\<close>.\<close>

definition strip_seps :: "string \<Rightarrow> string" where
  "strip_seps a = filter (\<lambda>c. \<not> is_sep c) a"

text \<open>
  What the spec calls all the matches in document order, for comparison with the scan of
  \<open>re.findall\<close>: the pattern tried at every position of the text, from left to right,
  and each match listed where it starts.
\<close>

fun matches_at_every_position :: "char option \<Rightarrow> string \<Rightarrow> string list" where
  "matches_at_every_position prev [] = []"
| "matches_at_every_position prev (c # s) =
     (case awb_match prev (c # s) of None \<Rightarrow> [] | Some m \<Rightarrow> [m])
       @ matches_at_every_position (Some c) s"

subsection \<open>extract_awbs (tunadex/email/parser.py)\<close>

definition extract_awbs :: "string \<Rightarrow> string list" where
  "extract_awbs text = (let raw = findall_awb None text in map strip_seps raw)"

subsection \<open>collections.Counter\<close>

text \<open>
  A Counter is a dict, which keeps its keys in the order of their first insertion: an
  association list with one entry per key.
\<close>

fun counter_incr :: "'a \<Rightarrow> ('a \<times> nat) list \<Rightarrow> ('a \<times> nat) list" where
  "counter_incr x [] = [(x, 1)]"
| "counter_incr x ((k, n) # kvs) =
     (if k = x then (k, Suc n) # kvs else (k, n) # counter_incr x kvs)"

definition Counter :: "'a list \<Rightarrow> ('a \<times> nat) list" where
  "Counter xs = foldl (\<lambda>c x. counter_incr x c) [] xs"

subsection \<open>check_double_counts\<close>

definition line_key :: "'w ShipmentLine \<Rightarrow> string \<times> string" where
  "line_key line = (lower (customer_name line), lower (species line))"

text \<open>One turn of the loop over \<open>awb_counts.items()\<close>.\<close>

definition double_count_step ::
  "'w Shipment list \<Rightarrow> 'w Anomaly list \<Rightarrow> string \<times> nat \<Rightarrow> 'w Anomaly list" where
  "double_count_step ss anoms item =
     (case item of (a, count) \<Rightarrow>
        if count \<le> 1 then anoms
        else
          let dupes = filter (\<lambda>s. awb s = a) ss;
              all_lines = concat (map (\<lambda>s. map line_key (lines s)) dupes);
              line_counts = Counter all_lines;
              duplicate_lines = filter (\<lambda>(k, v). v > 1) line_counts
          in if duplicate_lines \<noteq> [] then
               anoms @ [\<lparr>anomaly_type = DOUBLE_COUNT, severity = ERROR,
                         description = DuplicateLineItems a count duplicate_lines,
                         related_awb = Some a,
                         related_emails = concat (map source_email_ids dupes)\<rparr>]
             else
               anoms @ [\<lparr>anomaly_type = DOUBLE_COUNT, severity = WARNING,
                         description = SplitShipment a count,
                         related_awb = Some a,
                         related_emails = concat (map source_email_ids dupes)\<rparr>])"

definition check_double_counts :: "'w Shipment list \<Rightarrow> 'w Anomaly list" where
  "check_double_counts ss =
     (let awb_counts = Counter (map awb (filter (\<lambda>s. awb s \<noteq> MISSING) ss))
      in foldl (double_count_step ss) [] awb_counts)"

subsection \<open>check_missing_paperwork\<close>

definition missing_paperwork_awb ::
  "string set \<Rightarrow> EmailDetail \<Rightarrow> 'w Anomaly list \<Rightarrow> string \<Rightarrow> 'w Anomaly list" where
  "missing_paperwork_awb extracted_awbs email anoms a =
     (if a \<notin> extracted_awbs then
        anoms @ [\<lparr>anomaly_type = MISSING_PAPERWORK, severity = WARNING,
                  description = MentionsUnextractedAwb (subject email) a,
                  related_awb = Some a, related_emails = [message_id email]\<rparr>]
      else anoms)"

definition missing_paperwork_email ::
  "string set \<Rightarrow> 'w Anomaly list \<Rightarrow> EmailDetail \<Rightarrow> 'w Anomaly list" where
  "missing_paperwork_email extracted_awbs anoms email =
     (let text = body_text email @ '' '' @ subject email;
          mentioned_awbs = findall_awb None text;
          mentioned_awbs = map strip_seps mentioned_awbs
      in foldl (missing_paperwork_awb extracted_awbs email) anoms mentioned_awbs)"

definition check_missing_paperwork :: "EmailDetail list \<Rightarrow> 'w Shipment list \<Rightarrow> 'w Anomaly list" where
  "check_missing_paperwork emails ss =
     (let extracted_awbs = set (map awb (filter (\<lambda>s. awb s \<noteq> MISSING) ss))
      in foldl (missing_paperwork_email extracted_awbs) [] emails)"

subsection \<open>check_weight_outliers\<close>

definition SPECIES_WEIGHT_RANGES :: "(string \<times> real \<times> real) list" where
  "SPECIES_WEIGHT_RANGES =
     [(''swordfish'', (40, 500)),
      (''yellowtail'', (5, 200)),
      (''yellowfin tuna'', (20, 400)),
      (''bigeye tuna'', (20, 500)),
      (''albacore tuna'', (10, 200)),
      (''black grouper'', (5, 150)),
      (''salmon'', (5, 150)),
      (''snapper'', (5, 100)),
      (''red snapper'', (5, 100)),
      (''tilefish'', (5, 100)),
      (''opah'', (20, 300)),
      (''mahi mahi'', (5, 150))]"

text \<open>One turn of the inner loop, over the lines of a shipment.\<close>

definition weight_outlier_line ::
  "real Shipment \<Rightarrow> real Anomaly list \<Rightarrow> real ShipmentLine \<Rightarrow> real Anomaly list" where
  "weight_outlier_line shipment anoms line =
     (case weight_lbs line of None \<Rightarrow> anoms
      | Some w \<Rightarrow>
          let species_key = lower (species line)
          in case map_of SPECIES_WEIGHT_RANGES species_key of None \<Rightarrow> anoms
             | Some (min_w, max_w) \<Rightarrow>
                 if w < min_w \<or> w > max_w then
                   anoms @ [\<lparr>anomaly_type = WEIGHT_OUTLIER, severity = WARNING,
                             description = OutsideTypicalRange (awb shipment) (species line)
                               (customer_name line) w min_w max_w,
                             related_awb = Some (awb shipment),
                             related_emails = source_email_ids shipment\<rparr>]
                 else anoms)"

definition check_weight_outliers :: "real Shipment list \<Rightarrow> real Anomaly list" where
  "check_weight_outliers ss =
     foldl (\<lambda>anoms shipment. foldl (weight_outlier_line shipment) anoms (lines shipment)) [] ss"

subsection \<open>run_all_checks\<close>

definition run_all_checks :: "EmailDetail list \<Rightarrow> real Shipment list \<Rightarrow> real Anomaly list" where
  "run_all_checks emails ss =
     check_double_counts ss @ check_missing_paperwork emails ss
       @ check_awb_consistency ss @ check_weight_outliers ss"

section \<open>Aggregation (DailyPayload.compute_totals, tunadex/extraction/schema.py)\<close>

text \<open>
  The float operations that \<open>compute_totals\<close> uses: the addition, the constant \<open>0.0\<close> and
  the truth value of a float (false for a zero).
\<close>

record 'w float_ops =
  fadd :: "'w \<Rightarrow> 'w \<Rightarrow> 'w"
  fzero :: 'w
  ftruthy :: "'w \<Rightarrow> bool"

definition real_ops :: "real float_ops" where
  "real_ops = \<lparr>fadd = (+), fzero = 0, ftruthy = (\<lambda>x. x \<noteq> 0)\<rparr>"

text \<open>
  \<open>v = d.setdefault(k, default)\<close> followed by updates of the fields of \<open>v\<close>: the entry of
  \<open>k\<close> is changed where it stands, and a key that is new goes to the end of the dict.
\<close>

fun setdefault_update :: "'k \<Rightarrow> 'v \<Rightarrow> ('v \<Rightarrow> 'v) \<Rightarrow> ('k \<times> 'v) list \<Rightarrow> ('k \<times> 'v) list" where
  "setdefault_update k d f [] = [(k, f d)]"
| "setdefault_update k d f ((k', v) # kvs) =
     (if k' = k then (k', f v) # kvs else (k', v) # setdefault_update k d f kvs)"

text \<open>\<open>line.boxes or 0\<close>, \<open>line.weight_lbs or 0.0\<close> and \<open>line.company or line.customer_name\<close>.\<close>

definition boxes_or_zero :: "'w ShipmentLine \<Rightarrow> int" where
  "boxes_or_zero line = (case boxes line of None \<Rightarrow> 0 | Some n \<Rightarrow> if n \<noteq> 0 then n else 0)"

definition weight_or_zero :: "'w float_ops \<Rightarrow> 'w ShipmentLine \<Rightarrow> 'w" where
  "weight_or_zero ops line =
     (case weight_lbs line of None \<Rightarrow> fzero ops
      | Some x \<Rightarrow> if ftruthy ops x then x else fzero ops)"

definition company_or_name :: "'w ShipmentLine \<Rightarrow> string" where
  "company_or_name line =
     (case company line of None \<Rightarrow> customer_name line
      | Some c \<Rightarrow> if c \<noteq> [] then c else customer_name line)"

text \<open>
  The body of the inner loop. The four local variables of the source are the four
  fields of the totals under construction.
\<close>

definition totals_line :: "'w float_ops \<Rightarrow> 'w ShipmentTotals \<Rightarrow> 'w ShipmentLine \<Rightarrow> 'w ShipmentTotals" where
  "totals_line ops acc line =
     (let bx = boxes_or_zero line;
          weight = weight_or_zero ops line;
          name = company_or_name line
      in \<lparr>total_boxes = total_boxes acc + bx,
          total_weight_lbs = fadd ops (total_weight_lbs acc) weight,
          species_breakdown =
            setdefault_update (species line) \<lparr>st_boxes = 0, st_weight_lbs = fzero ops\<rparr>
              (\<lambda>sp. \<lparr>st_boxes = st_boxes sp + bx, st_weight_lbs = fadd ops (st_weight_lbs sp) weight\<rparr>)
              (species_breakdown acc),
          customer_breakdown =
            setdefault_update name \<lparr>ct_boxes = 0, ct_weight_lbs = fzero ops, order_count = 0\<rparr>
              (\<lambda>ct. \<lparr>ct_boxes = ct_boxes ct + bx, ct_weight_lbs = fadd ops (ct_weight_lbs ct) weight,
                     order_count = order_count ct + 1\<rparr>)
              (customer_breakdown acc)\<rparr>)"

definition empty_totals :: "'w float_ops \<Rightarrow> 'w ShipmentTotals" where
  "empty_totals ops =
     \<lparr>total_boxes = 0, total_weight_lbs = fzero ops, species_breakdown = [],
      customer_breakdown = []\<rparr>"

definition compute_totals :: "'w float_ops \<Rightarrow> 'w DailyPayload \<Rightarrow> 'w DailyPayload" where
  "compute_totals ops payload =
     payload\<lparr>totals :=
       foldl (\<lambda>acc shipment. foldl (totals_line ops) acc (lines shipment))
         (empty_totals ops) (shipments payload)\<rparr>"

section \<open>Concrete inputs\<close>

text \<open>The fixtures of scripts/dry\_run.py, with the fields that vary as arguments.\<close>

definition test_line ::
  "string \<Rightarrow> string option \<Rightarrow> string \<Rightarrow> int option \<Rightarrow> real option \<Rightarrow> real ShipmentLine" where
  "test_line cn co sp bx wt =
     \<lparr>customer_name = cn, company = co, species = sp, boxes = bx, weight_lbs = wt,
      size_category = None, count_per_box = None, line_notes = None\<rparr>"

definition test_shipment :: "string \<Rightarrow> real ShipmentLine list \<Rightarrow> string list \<Rightarrow> real Shipment" where
  "test_shipment a ls ids =
     \<lparr>awb = a, date = Date 2026 2 23, supplier = ''Victor'', freight_forwarder = None,
      lines = ls, source_email_ids = ids\<rparr>"

definition test_email :: "string \<Rightarrow> string \<Rightarrow> string \<Rightarrow> EmailDetail" where
  "test_email mid subj body =
     \<lparr>message_id = mid, thread_id = ''thread_001'', subject = subj, sender = ''test@test.com'',
      email_date = None, body_text = body, body_html = [], attachments = []\<rparr>"

definition test_payload :: "real Shipment list \<Rightarrow> real DailyPayload" where
  "test_payload ss =
     \<lparr>payload_date = Date 2026 2 23, run_timestamp = DateTime (Date 2026 2 23) 12 0 0,
      emails_processed = 2, shipments = ss, anomalies = [],
      totals = \<lparr>total_boxes = 0, total_weight_lbs = 0, species_breakdown = [],
                customer_breakdown = []\<rparr>\<rparr>"

text \<open>\<open>MOCK_SHIPMENTS_JSON\<close> of scripts/dry\_run.py, as the end-to-end test builds it.\<close>

definition mock_shipments :: "real Shipment list" where
  "mock_shipments =
     [test_shipment ''12345678901''
        [test_line ''Mark'' (Some ''Mark's Seafood'') ''Swordfish'' (Some 10) (Some 450),
         test_line ''Bryan'' (Some ''Gosman's Fish Market'') ''Swordfish'' (Some 8) (Some 360),
         test_line ''Chade'' (Some ''Lockwood-Winant'') ''Yellowtail'' (Some 5) (Some 40)]
        [''msg_001'', ''msg_002''],
      test_shipment ''23456789012''
        [test_line ''Robby'' (Some ''Great Eastern'') ''Yellowfin Tuna'' (Some 6) (Some 280),
         test_line ''Manny'' (Some ''Stavis'') ''Mahi Mahi'' (Some 4) (Some 90)]
        [''msg_001'', ''msg_002'']]"

text \<open>
  Two shipments with the same AWB: first with the same line, as in the detector test of
  scripts/dry\_run.py, then with different lines from different emails.
\<close>

definition double_counted :: "real Shipment list" where
  "double_counted =
     [test_shipment ''12345678901''
        [test_line ''Mark'' None ''Swordfish'' (Some 10) (Some 450)] [''msg_001''],
      test_shipment ''12345678901''
        [test_line ''Mark'' None ''Swordfish'' (Some 10) (Some 450)] [''msg_001'']]"

definition split_shipment :: "real Shipment list" where
  "split_shipment =
     [test_shipment ''12345678901''
        [test_line ''Mark'' None ''Swordfish'' (Some 10) (Some 450)] [''msg_001''],
      test_shipment ''12345678901''
        [test_line ''Bryan'' None ''Yellowtail'' (Some 5) (Some 40)] [''msg_002'']]"

section \<open>Loops that only append\<close>

text \<open>
  Every check of the detector is a loop whose body appends to the list of anomalies and
  never reads it. Such a loop yields the concatenation of what each turn appends.
\<close>

lemma foldl_append_step:
  assumes "\<And>a x. f a x = a @ f [] x"
  shows "foldl f a xs = a @ concat (map (f []) xs)"
proof (induction xs arbitrary: a)
  case Nil
  show ?case by simp
next
  case (Cons x xs)
  have "foldl f a (x # xs) = foldl f (f a x) xs" by simp
  also have "\<dots> = f a x @ concat (map (f []) xs)" by (rule Cons.IH)
  also have "\<dots> = a @ f [] x @ concat (map (f []) xs)" using assms [of a x] by simp
  finally show ?case by simp
qed

section \<open>Construction of a ShipmentLine\<close>

text \<open>
  C4, as the spec states it: constructing a ShipmentLine with a negative weight or a
  negative number of boxes fails. It does not: the construction below succeeds and the
  line holds \<open>boxes = -5\<close> and \<open>weight_lbs = -1.0\<close>.
\<close>

theorem mk_ShipmentLine_negative_accepted:
  "mk_ShipmentLine ''Test'' None ''Swordfish'' (Some (- 5)) (Some (- 1 :: real)) None None None
     = Inr (test_line ''Test'' None ''Swordfish'' (Some (- 5)) (Some (- 1)))"
  by (simp add: mk_ShipmentLine_def test_line_def)

text \<open>
  C4, amended: for arguments of the declared types the construction of a ShipmentLine
  never fails, and the line holds the values given: \<open>boxes\<close> and \<open>weight_lbs\<close> are absent
  when absent was given and are otherwise the number given, whatever its sign.
\<close>

theorem mk_ShipmentLine_stores_arguments:
  "\<exists>l. mk_ShipmentLine cn co sp bx wt sc cpb nt = Inr l \<and> customer_name l = cn \<and> company l = co
     \<and> species l = sp \<and> boxes l = bx \<and> weight_lbs l = wt"
  by (simp add: mk_ShipmentLine_def)

section \<open>Empty inputs of the detector\<close>

text \<open>
  C3, as the spec states it: every check returns no anomaly when the shipment list is
  empty. \<open>check_missing_paperwork\<close> does not: with no shipment at all, an email that
  mentions an AWB is reported.
\<close>

theorem check_missing_paperwork_no_shipments_reports:
  "check_missing_paperwork [test_email ''msg_001'' ''Shipment'' ''AWB: 12345678901'']
       ([] :: real Shipment list)
     = [\<lparr>anomaly_type = MISSING_PAPERWORK, severity = WARNING,
         description = MentionsUnextractedAwb ''Shipment'' ''12345678901'',
         related_awb = Some ''12345678901'', related_emails = [''msg_001'']\<rparr>]"
  by code_simp

text \<open>
  C3, amended: \<open>check_double_counts\<close>, \<open>check_awb_consistency\<close> and
  \<open>check_weight_outliers\<close> return no anomaly for an empty shipment list;
  \<open>check_missing_paperwork\<close> returns none for an empty email list, whatever the
  shipments; \<open>run_all_checks\<close> returns none when both lists are empty, the results of the
  three shipment checks when only the email list is empty, and the result of
  \<open>check_missing_paperwork\<close> when only the shipment list is empty.
\<close>

theorem checks_on_empty_inputs:
  "check_double_counts [] = [] \<and> check_awb_consistency [] = [] \<and> check_weight_outliers [] = []
   \<and> check_missing_paperwork [] ss = []
   \<and> run_all_checks [] [] = []
   \<and> run_all_checks [] ss' =
       check_double_counts ss' @ check_awb_consistency ss' @ check_weight_outliers ss'
   \<and> run_all_checks emails [] = check_missing_paperwork emails []"
  by (simp add: check_double_counts_def Counter_def check_awb_consistency_def
      check_weight_outliers_def check_missing_paperwork_def run_all_checks_def)

section \<open>Recomputation of the totals\<close>

text \<open>
  C8: \<open>compute_totals\<close> is idempotent. The totals are computed from the shipments alone,
  which the call leaves as they are, so a second call gives the same payload, and the
  totals that the payload held before do not matter. This holds for any float addition:
  both calls add the same weights in the same order.
\<close>

theorem compute_totals_idempotent:
  "compute_totals ops (compute_totals ops payload) = compute_totals ops payload
   \<and> totals (compute_totals ops (payload\<lparr>totals := t\<rparr>)) = totals (compute_totals ops payload)"
  by (simp add: compute_totals_def)

section \<open>The dicts of compute\_totals\<close>

lemma setdefault_update_keys:
  "map fst (setdefault_update k d f kvs) =
     (if k \<in> fst ` set kvs then map fst kvs else map fst kvs @ [k])"
  by (induction kvs) (fastforce simp: image_iff)+

lemma setdefault_update_distinct:
  "distinct (map fst kvs) \<Longrightarrow> distinct (map fst (setdefault_update k d f kvs))"
  by (simp add: setdefault_update_keys)

lemma setdefault_update_map_of:
  "map_of (setdefault_update k d f kvs) k' =
     (if k' = k then Some (f (case map_of kvs k of None \<Rightarrow> d | Some v \<Rightarrow> v)) else map_of kvs k')"
  by (induction kvs) auto

lemma setdefault_update_sum:
  fixes g :: "'v \<Rightarrow> int"
  assumes "\<And>v. g (f v) = g v + delta" and "g d = 0"
  shows "sum_list (map (\<lambda>kv. g (snd kv)) (setdefault_update k d f kvs))
           = sum_list (map (\<lambda>kv. g (snd kv)) kvs) + delta"
  using assms by (induction kvs) auto

lemma foldl_setdefault_update_map_of:
  "map_of (foldl (\<lambda>d l. setdefault_update (key l) d0 (upd l) d) d ls) k =
     (if filter (\<lambda>l. key l = k) ls = [] then map_of d k
      else Some (foldl (\<lambda>v l. upd l v) (case map_of d k of None \<Rightarrow> d0 | Some v \<Rightarrow> v)
                  (filter (\<lambda>l. key l = k) ls)))"
proof (induction ls arbitrary: d)
  case Nil
  show ?case by simp
next
  case (Cons l ls)
  let ?d' = "setdefault_update (key l) d0 (upd l) d"
  have step: "map_of ?d' k =
      (if k = key l then Some (upd l (case map_of d k of None \<Rightarrow> d0 | Some v \<Rightarrow> v)) else map_of d k)"
    by (simp add: setdefault_update_map_of)
  show ?case
  proof (cases "key l = k")
    case True
    with Cons.IH [of ?d'] step show ?thesis by simp
  next
    case False
    with Cons.IH [of ?d'] step show ?thesis by auto
  qed
qed

section \<open>The loop of compute\_totals\<close>

lemma foldl_nested_concat:
  "foldl (\<lambda>acc x. foldl f acc (g x)) acc xs = foldl f acc (concat (map g xs))"
  by (induction xs arbitrary: acc) simp_all

lemma totals_compute_totals:
  "totals (compute_totals ops payload)
     = foldl (totals_line ops) (empty_totals ops) (concat (map lines (shipments payload)))"
  by (simp add: compute_totals_def foldl_nested_concat)

lemma foldl_totals_line_boxes:
  "total_boxes (foldl (totals_line ops) acc ls)
     = total_boxes acc + sum_list (map boxes_or_zero ls)"
  by (induction ls arbitrary: acc) (simp_all add: totals_line_def Let_def)

lemma foldl_totals_line_weight:
  "total_weight_lbs (foldl (totals_line ops) acc ls)
     = foldl (fadd ops) (total_weight_lbs acc) (map (weight_or_zero ops) ls)"
  by (induction ls arbitrary: acc) (simp_all add: totals_line_def Let_def)

lemma foldl_totals_line_species_boxes:
  "sum_list (map (\<lambda>kv. st_boxes (snd kv)) (species_breakdown (foldl (totals_line ops) acc ls)))
     = sum_list (map (\<lambda>kv. st_boxes (snd kv)) (species_breakdown acc))
       + sum_list (map boxes_or_zero ls)"
  by (induction ls arbitrary: acc)
    (simp_all add: totals_line_def Let_def setdefault_update_sum)

lemma foldl_totals_line_customer_boxes:
  "sum_list (map (\<lambda>kv. ct_boxes (snd kv)) (customer_breakdown (foldl (totals_line ops) acc ls)))
     = sum_list (map (\<lambda>kv. ct_boxes (snd kv)) (customer_breakdown acc))
       + sum_list (map boxes_or_zero ls)"
  by (induction ls arbitrary: acc)
    (simp_all add: totals_line_def Let_def setdefault_update_sum)

lemma foldl_totals_line_order_count:
  "sum_list (map (\<lambda>kv. order_count (snd kv)) (customer_breakdown (foldl (totals_line ops) acc ls)))
     = sum_list (map (\<lambda>kv. order_count (snd kv)) (customer_breakdown acc)) + int (length ls)"
  by (induction ls arbitrary: acc)
    (simp_all add: totals_line_def Let_def setdefault_update_sum)

lemma foldl_totals_line_distinct:
  "distinct (map fst (species_breakdown acc)) \<Longrightarrow> distinct (map fst (customer_breakdown acc)) \<Longrightarrow>
   distinct (map fst (species_breakdown (foldl (totals_line ops) acc ls)))
   \<and> distinct (map fst (customer_breakdown (foldl (totals_line ops) acc ls)))"
proof (induction ls arbitrary: acc)
  case Nil
  then show ?case by simp
next
  case (Cons l ls)
  have "distinct (map fst (species_breakdown (totals_line ops acc l)))"
    using Cons.prems(1) by (simp add: totals_line_def Let_def setdefault_update_distinct)
  moreover have "distinct (map fst (customer_breakdown (totals_line ops acc l)))"
    using Cons.prems(2) by (simp add: totals_line_def Let_def setdefault_update_distinct)
  ultimately show ?case using Cons.IH by simp
qed

lemma foldl_totals_line_species:
  "species_breakdown (foldl (totals_line ops) acc ls) =
     foldl (\<lambda>d l. setdefault_update (species l) \<lparr>st_boxes = 0, st_weight_lbs = fzero ops\<rparr>
              (\<lambda>sp. \<lparr>st_boxes = st_boxes sp + boxes_or_zero l,
                     st_weight_lbs = fadd ops (st_weight_lbs sp) (weight_or_zero ops l)\<rparr>) d)
       (species_breakdown acc) ls"
  by (induction ls arbitrary: acc) (simp_all add: totals_line_def Let_def)

lemma foldl_totals_line_customers:
  "customer_breakdown (foldl (totals_line ops) acc ls) =
     foldl (\<lambda>d l. setdefault_update (company_or_name l)
              \<lparr>ct_boxes = 0, ct_weight_lbs = fzero ops, order_count = 0\<rparr>
              (\<lambda>ct. \<lparr>ct_boxes = ct_boxes ct + boxes_or_zero l,
                     ct_weight_lbs = fadd ops (ct_weight_lbs ct) (weight_or_zero ops l),
                     order_count = order_count ct + 1\<rparr>) d)
       (customer_breakdown acc) ls"
  by (induction ls arbitrary: acc) (simp_all add: totals_line_def Let_def)

lemma foldl_species_total:
  "foldl (\<lambda>v l. \<lparr>st_boxes = st_boxes v + b l, st_weight_lbs = add (st_weight_lbs v) (w l)\<rparr>) v0 ls
     = \<lparr>st_boxes = st_boxes v0 + sum_list (map b ls),
        st_weight_lbs = foldl add (st_weight_lbs v0) (map w ls)\<rparr>"
  by (induction ls arbitrary: v0) simp_all

lemma foldl_customer_total:
  "foldl (\<lambda>v l. \<lparr>ct_boxes = ct_boxes v + b l, ct_weight_lbs = add (ct_weight_lbs v) (w l),
                  order_count = order_count v + 1\<rparr>) v0 ls
     = \<lparr>ct_boxes = ct_boxes v0 + sum_list (map b ls),
        ct_weight_lbs = foldl add (ct_weight_lbs v0) (map w ls),
        order_count = order_count v0 + int (length ls)\<rparr>"
  by (induction ls arbitrary: v0) simp_all

lemma filter_empty_image: "filter (\<lambda>l. key l = k) ls = [] \<longleftrightarrow> k \<notin> key ` set ls"
  by (auto simp: filter_empty_conv)

lemma boxes_or_zero_eq: "boxes_or_zero = (\<lambda>l. case boxes l of None \<Rightarrow> 0 | Some n \<Rightarrow> n)"
  by (auto simp: boxes_or_zero_def fun_eq_iff split: option.splits)

lemma company_or_name_eq:
  "company_or_name =
     (\<lambda>l. case company l of None \<Rightarrow> customer_name l
          | Some c \<Rightarrow> if c = [] then customer_name l else c)"
  by (auto simp: company_or_name_def fun_eq_iff split: option.splits)

lemma weight_or_zero_eq:
  "weight_or_zero ops =
     (\<lambda>l. case weight_lbs l of None \<Rightarrow> fzero ops
          | Some x \<Rightarrow> if ftruthy ops x then x else fzero ops)"
  by (auto simp: weight_or_zero_def fun_eq_iff split: option.splits)

lemma species_breakdown_map_of:
  "map_of (species_breakdown (totals (compute_totals ops payload))) k =
     (if k \<in> species ` set (concat (map lines (shipments payload))) then
        Some \<lparr>st_boxes = sum_list (map boxes_or_zero
                 (filter (\<lambda>l. species l = k) (concat (map lines (shipments payload))))),
              st_weight_lbs = foldl (fadd ops) (fzero ops) (map (weight_or_zero ops)
                 (filter (\<lambda>l. species l = k) (concat (map lines (shipments payload)))))\<rparr>
      else None)"
  by (simp add: totals_compute_totals foldl_totals_line_species foldl_setdefault_update_map_of
      foldl_species_total filter_empty_image empty_totals_def)

lemma customer_breakdown_map_of:
  "map_of (customer_breakdown (totals (compute_totals ops payload))) k =
     (if k \<in> company_or_name ` set (concat (map lines (shipments payload))) then
        Some \<lparr>ct_boxes = sum_list (map boxes_or_zero
                 (filter (\<lambda>l. company_or_name l = k) (concat (map lines (shipments payload))))),
              ct_weight_lbs = foldl (fadd ops) (fzero ops) (map (weight_or_zero ops)
                 (filter (\<lambda>l. company_or_name l = k) (concat (map lines (shipments payload))))),
              order_count = int (length
                 (filter (\<lambda>l. company_or_name l = k) (concat (map lines (shipments payload)))))\<rparr>
      else None)"
  by (simp add: totals_compute_totals foldl_totals_line_customers foldl_setdefault_update_map_of
      foldl_customer_total filter_empty_image empty_totals_def)

lemma mock_totals:
  "total_boxes (totals (compute_totals real_ops (test_payload mock_shipments))) = 33
   \<and> total_weight_lbs (totals (compute_totals real_ops (test_payload mock_shipments))) = 1220"
  by (simp add: compute_totals_def test_payload_def mock_shipments_def test_shipment_def
      test_line_def totals_line_def empty_totals_def real_ops_def boxes_or_zero_def
      weight_or_zero_def company_or_name_def)

section \<open>What compute\_totals computes\<close>

text \<open>
  C2, as the spec states it: the customer breakdown is keyed by the company whenever the
  line has one. A line whose company is the empty string has one, and yet it is counted
  under the customer name: the only key below is \<open>Mark\<close>, not the empty string.
\<close>

theorem compute_totals_empty_company_key:
  "map fst (customer_breakdown (totals (compute_totals real_ops (test_payload
      [test_shipment ''12345678901''
         [test_line ''Mark'' (Some []) ''Swordfish'' (Some 10) (Some 450)] [''msg_001'']]))))
   = [''Mark'']"
  by code_simp

text \<open>
  C2, amended: \<open>compute_totals\<close> sets the totals to the fold over the lines of all
  shipments in input order, an absent number of boxes or an absent weight counting as
  zero. \<open>total_boxes\<close> is the sum of the boxes and \<open>total_weight_lbs\<close> is the weights
  added from \<open>0.0\<close> on in that order. \<open>species_breakdown\<close> has an entry for exactly the
  species strings of the lines, verbatim, with the boxes and weights of the lines of that
  species. \<open>customer_breakdown\<close> is keyed by the company when it is present and not the
  empty string, else by the customer name, and \<open>order_count\<close> is the number of lines
  with that key. On the five lines of the mock shipments the totals are 33 boxes and
  1220 lbs.
\<close>

theorem compute_totals_is_fold_over_lines:
  "(let ls = concat (map lines (shipments payload));
        t = totals (compute_totals ops payload);
        bx = (\<lambda>l. case boxes l of None \<Rightarrow> 0 | Some n \<Rightarrow> n);
        wt = (\<lambda>l. case weight_lbs l of None \<Rightarrow> fzero ops
                  | Some x \<Rightarrow> if ftruthy ops x then x else fzero ops);
        name = (\<lambda>l. case company l of None \<Rightarrow> customer_name l
                  | Some c \<Rightarrow> if c = [] then customer_name l else c)
    in total_boxes t = sum_list (map bx ls)
     \<and> total_weight_lbs t = foldl (fadd ops) (fzero ops) (map wt ls)
     \<and> (\<forall>k. map_of (species_breakdown t) k =
           (if k \<in> species ` set ls then
              Some \<lparr>st_boxes = sum_list (map bx (filter (\<lambda>l. species l = k) ls)),
                    st_weight_lbs = foldl (fadd ops) (fzero ops)
                      (map wt (filter (\<lambda>l. species l = k) ls))\<rparr>
            else None))
     \<and> (\<forall>k. map_of (customer_breakdown t) k =
           (if k \<in> name ` set ls then
              Some \<lparr>ct_boxes = sum_list (map bx (filter (\<lambda>l. name l = k) ls)),
                    ct_weight_lbs = foldl (fadd ops) (fzero ops)
                      (map wt (filter (\<lambda>l. name l = k) ls)),
                    order_count = int (length (filter (\<lambda>l. name l = k) ls))\<rparr>
            else None)))
   \<and> total_boxes (totals (compute_totals real_ops (test_payload mock_shipments))) = 33
   \<and> total_weight_lbs (totals (compute_totals real_ops (test_payload mock_shipments))) = 1220"
proof -
  have a: "total_boxes (totals (compute_totals ops payload))
      = sum_list (map boxes_or_zero (concat (map lines (shipments payload))))"
    by (simp add: totals_compute_totals foldl_totals_line_boxes empty_totals_def)
  have b: "total_weight_lbs (totals (compute_totals ops payload))
      = foldl (fadd ops) (fzero ops) (map (weight_or_zero ops) (concat (map lines (shipments payload))))"
    by (simp add: totals_compute_totals foldl_totals_line_weight empty_totals_def)
  note c = species_breakdown_map_of [of ops payload] customer_breakdown_map_of [of ops payload]
  show ?thesis
    unfolding Let_def
    using a b c mock_totals
    unfolding boxes_or_zero_eq company_or_name_eq weight_or_zero_eq
    by simp
qed

text \<open>
  C10: after \<open>compute_totals\<close> the totals are consistent: \<open>total_boxes\<close> is the sum of
  the boxes over the species breakdown and also over the customer breakdown, and the
  order counts of the customer breakdown add up to the number of lines of the payload.
  Each breakdown has one entry per key, so the sums over the entries are the sums over
  the values of the dicts.
\<close>

theorem compute_totals_consistent:
  "total_boxes (totals (compute_totals ops payload))
     = sum_list (map (\<lambda>kv. st_boxes (snd kv)) (species_breakdown (totals (compute_totals ops payload))))
   \<and> total_boxes (totals (compute_totals ops payload))
     = sum_list (map (\<lambda>kv. ct_boxes (snd kv)) (customer_breakdown (totals (compute_totals ops payload))))
   \<and> sum_list (map (\<lambda>kv. order_count (snd kv)) (customer_breakdown (totals (compute_totals ops payload))))
     = int (length (concat (map lines (shipments payload))))
   \<and> distinct (map fst (species_breakdown (totals (compute_totals ops payload))))
   \<and> distinct (map fst (customer_breakdown (totals (compute_totals ops payload))))"
  using foldl_totals_line_distinct [of "empty_totals ops" ops "concat (map lines (shipments payload))"]
  by (simp add: totals_compute_totals foldl_totals_line_boxes foldl_totals_line_species_boxes
      foldl_totals_line_customer_boxes foldl_totals_line_order_count empty_totals_def)

section \<open>The weight outlier check\<close>

lemma concat_map_if_singleton:
  "concat (map (\<lambda>x. if P x then [h x] else []) xs) = map h (filter P xs)"
  by (induction xs) simp_all

lemma weight_outlier_line_append:
  "weight_outlier_line s anoms l = anoms @ weight_outlier_line s [] l"
  by (simp add: weight_outlier_line_def Let_def split: option.splits)

lemma check_weight_outliers_concat:
  "check_weight_outliers ss =
     concat (map (\<lambda>s. concat (map (weight_outlier_line s []) (lines s))) ss)"
proof -
  have inner: "foldl (weight_outlier_line s) anoms ls
      = anoms @ concat (map (weight_outlier_line s []) ls)" for s anoms ls
    by (rule foldl_append_step) (rule weight_outlier_line_append)
  have "foldl (\<lambda>anoms s. foldl (weight_outlier_line s) anoms (lines s)) [] ss
      = [] @ concat (map (\<lambda>s. foldl (weight_outlier_line s) [] (lines s)) ss)"
    by (rule foldl_append_step) (simp add: inner)
  then show ?thesis by (simp add: check_weight_outliers_def inner)
qed

lemma weight_outlier_line_summary:
  "map (\<lambda>a. (anomaly_type a, severity a, related_awb a, related_emails a))
       (weight_outlier_line s [] l)
   = (if \<exists>w lo hi. weight_lbs l = Some w
           \<and> map_of SPECIES_WEIGHT_RANGES (lower (species l)) = Some (lo, hi) \<and> (w < lo \<or> hi < w)
      then [(WEIGHT_OUTLIER, WARNING, Some (awb s), source_email_ids s)] else [])"
  by (auto simp: weight_outlier_line_def Let_def split: option.splits)

text \<open>
  C7: \<open>check_weight_outliers\<close> emits one WEIGHT\_OUTLIER anomaly of severity WARNING for
  exactly the lines that have a weight, whose lowercased species is a key of
  \<open>SPECIES_WEIGHT_RANGES\<close>, and whose weight is strictly below the minimum or strictly
  above the maximum of its range; the anomalies come in the order of the shipments and of
  their lines and carry the shipment's AWB and email ids. A Swordfish line of 5000 lbs
  yields exactly one anomaly, one of 450 lbs yields none.
\<close>

theorem check_weight_outliers_exactly_out_of_range:
  "map (\<lambda>a. (anomaly_type a, severity a, related_awb a, related_emails a))
       (check_weight_outliers ss)
   = concat (map (\<lambda>s. map (\<lambda>l. (WEIGHT_OUTLIER, WARNING, Some (awb s), source_email_ids s))
        (filter (\<lambda>l. \<exists>w lo hi. weight_lbs l = Some w
             \<and> map_of SPECIES_WEIGHT_RANGES (lower (species l)) = Some (lo, hi)
             \<and> (w < lo \<or> hi < w)) (lines s))) ss)
   \<and> map (\<lambda>a. (anomaly_type a, severity a))
        (check_weight_outliers [test_shipment ''99999999999''
           [test_line ''Test'' None ''Swordfish'' None (Some 5000)] []])
      = [(WEIGHT_OUTLIER, WARNING)]
   \<and> check_weight_outliers [test_shipment ''99999999999''
           [test_line ''Test'' None ''Swordfish'' None (Some 450)] []] = []"
proof -
  have gen: "map (\<lambda>a. (anomaly_type a, severity a, related_awb a, related_emails a))
       (check_weight_outliers ss)
   = concat (map (\<lambda>s. map (\<lambda>l. (WEIGHT_OUTLIER, WARNING, Some (awb s), source_email_ids s))
        (filter (\<lambda>l. \<exists>w lo hi. weight_lbs l = Some w
             \<and> map_of SPECIES_WEIGHT_RANGES (lower (species l)) = Some (lo, hi)
             \<and> (w < lo \<or> hi < w)) (lines s))) ss)"
    by (simp add: check_weight_outliers_concat map_concat comp_def weight_outlier_line_summary
        concat_map_if_singleton)
  have e1: "map (\<lambda>a. (anomaly_type a, severity a))
        (check_weight_outliers [test_shipment ''99999999999''
           [test_line ''Test'' None ''Swordfish'' None (Some 5000)] []])
      = [(WEIGHT_OUTLIER, WARNING)]"
    by code_simp
  have e2: "check_weight_outliers [test_shipment ''99999999999''
           [test_line ''Test'' None ''Swordfish'' None (Some 450)] []] = []"
    by code_simp
  from gen e1 e2 show ?thesis by blast
qed

section \<open>Counters\<close>

lemma counter_incr_setdefault: "counter_incr x c = setdefault_update x 0 Suc c"
  by (induction c) auto

lemma foldl_count_up: "foldl (\<lambda>v l. Suc v) n ys = n + length ys"
  by (induction ys arbitrary: n) simp_all

lemma foldl_setdefault_update_distinct:
  "distinct (map fst d) \<Longrightarrow>
   distinct (map fst (foldl (\<lambda>d l. setdefault_update (key l) d0 (upd l) d) d ls))"
  by (induction ls arbitrary: d) (simp_all add: setdefault_update_distinct)

lemma Counter_map_of:
  "map_of (Counter xs) k = (if k \<in> set xs then Some (length (filter (\<lambda>x. x = k) xs)) else None)"
proof -
  have "Counter xs = foldl (\<lambda>d l. setdefault_update l 0 Suc d) [] xs"
    by (simp add: Counter_def counter_incr_setdefault)
  then have "map_of (Counter xs) k =
      (if filter (\<lambda>l. l = k) xs = [] then None
       else Some (foldl (\<lambda>v l. Suc v) 0 (filter (\<lambda>l. l = k) xs)))"
    using foldl_setdefault_update_map_of [of "\<lambda>l. l" 0 "\<lambda>l. Suc" "[]" xs k] by simp
  then show ?thesis
    by (auto simp: foldl_count_up filter_empty_conv)
qed

lemma Counter_distinct: "distinct (map fst (Counter xs))"
proof -
  have "Counter xs = foldl (\<lambda>d l. setdefault_update l 0 Suc d) [] xs"
    by (simp add: Counter_def counter_incr_setdefault)
  then show ?thesis
    using foldl_setdefault_update_distinct [of "[]" "\<lambda>l. l" 0 "\<lambda>l. Suc" xs] by simp
qed

lemma Counter_entries:
  "(k, n) \<in> set (Counter xs) \<longleftrightarrow> k \<in> set xs \<and> n = length (filter (\<lambda>x. x = k) xs)"
proof -
  have "(k, n) \<in> set (Counter xs) \<longleftrightarrow> map_of (Counter xs) k = Some n"
    using Counter_distinct [of xs] by simp
  then show ?thesis by (auto simp: Counter_map_of)
qed

lemma Counter_has_repeat:
  "filter (\<lambda>(k, v). v > 1) (Counter xs) \<noteq> [] \<longleftrightarrow> (\<exists>k. 1 < length (filter (\<lambda>x. x = k) xs))"
proof
  assume "filter (\<lambda>(k, v). v > 1) (Counter xs) \<noteq> []"
  then obtain k v where "(k, v) \<in> set (Counter xs)" and "v > 1"
    by (auto simp: filter_empty_conv)
  then show "\<exists>k. 1 < length (filter (\<lambda>x. x = k) xs)"
    by (auto simp: Counter_entries)
next
  assume "\<exists>k. 1 < length (filter (\<lambda>x. x = k) xs)"
  then obtain k where k: "1 < length (filter (\<lambda>x. x = k) xs)" by blast
  then have "filter (\<lambda>x. x = k) xs \<noteq> []" by auto
  then have "k \<in> set xs" by (auto simp: filter_empty_conv)
  with k have "(k, length (filter (\<lambda>x. x = k) xs)) \<in> set (Counter xs)"
    by (simp add: Counter_entries)
  with k show "filter (\<lambda>(k, v). v > 1) (Counter xs) \<noteq> []"
    by (auto simp: filter_empty_conv)
qed

lemma filter_keyed_concat:
  assumes "distinct (map fst kvs)" and "\<And>k n a. a \<in> set (g (k, n)) \<Longrightarrow> Q a \<longleftrightarrow> k = w"
  shows "filter Q (concat (map g kvs))
           = (case map_of kvs w of None \<Rightarrow> [] | Some n \<Rightarrow> g (w, n))"
  using assms(1)
proof (induction kvs)
  case Nil
  show ?case by simp
next
  case (Cons kv kvs)
  obtain k n where kv: "kv = (k, n)" by (cases kv)
  from Cons.prems kv have nin: "k \<notin> fst ` set kvs" and dist: "distinct (map fst kvs)"
    by simp_all
  have here: "filter Q (g (k, n)) = (if k = w then g (k, n) else [])"
    using assms(2) [of _ k n] by (auto simp: filter_empty_conv filter_id_conv)
  show ?case
  proof (cases "k = w")
    case True
    with nin have "map_of kvs w = None" by (simp add: map_of_eq_None_iff)
    with Cons.IH [OF dist] kv True here show ?thesis by simp
  next
    case False
    with Cons.IH [OF dist] kv here show ?thesis by simp
  qed
qed

lemma double_count_step_append:
  "double_count_step ss anoms item = anoms @ double_count_step ss [] item"
  by (simp add: double_count_step_def Let_def split: prod.splits)

lemma check_double_counts_concat:
  "check_double_counts ss =
     concat (map (double_count_step ss [])
       (Counter (map awb (filter (\<lambda>s. awb s \<noteq> MISSING) ss))))"
proof -
  have "foldl (double_count_step ss) [] kvs = [] @ concat (map (double_count_step ss []) kvs)" for kvs
    by (rule foldl_append_step) (rule double_count_step_append)
  then show ?thesis by (simp add: check_double_counts_def)
qed

lemma double_count_step_related_awb:
  "a \<in> set (double_count_step ss [] (k, n)) \<Longrightarrow> related_awb a = Some k"
  by (auto simp: double_count_step_def Let_def split: if_splits)

lemma double_count_step_length:
  "length (double_count_step ss [] (k, n)) = (if n \<le> 1 then 0 else 1)"
  by (simp add: double_count_step_def Let_def)

lemma awb_occurrences:
  "length (filter (\<lambda>x. x = w) (map awb (filter (\<lambda>s. awb s \<noteq> MISSING) ss)))
     = (if w = MISSING then 0 else length (filter (\<lambda>s. awb s = w) ss))"
proof -
  have "filter (\<lambda>x. x = w) (map awb (filter (\<lambda>s. awb s \<noteq> MISSING) ss))
      = map awb (filter (\<lambda>s. awb s = w \<and> awb s \<noteq> MISSING) ss)"
    by (simp add: filter_map comp_def conj_commute)
  moreover have "filter (\<lambda>s. awb s = w \<and> awb s \<noteq> MISSING) ss
      = (if w = MISSING then [] else filter (\<lambda>s. awb s = w) ss)"
    by (auto intro: filter_cong)
  ultimately show ?thesis by simp
qed

lemma check_double_counts_per_awb:
  "length (filter (\<lambda>a. related_awb a = Some w) (check_double_counts ss))
     = (if w \<noteq> MISSING \<and> 1 < length (filter (\<lambda>s. awb s = w) ss) then 1 else 0)"
proof -
  let ?xs = "map awb (filter (\<lambda>s. awb s \<noteq> MISSING) ss)"
  have "filter (\<lambda>a. related_awb a = Some w) (check_double_counts ss)
      = (case map_of (Counter ?xs) w of None \<Rightarrow> []
         | Some n \<Rightarrow> double_count_step ss [] (w, n))"
    unfolding check_double_counts_concat
    by (rule filter_keyed_concat) (auto simp: Counter_distinct dest: double_count_step_related_awb)
  then have "length (filter (\<lambda>a. related_awb a = Some w) (check_double_counts ss))
      = (if w \<in> set ?xs then (if length (filter (\<lambda>x. x = w) ?xs) \<le> 1 then 0 else 1) else 0)"
    by (simp add: Counter_map_of double_count_step_length)
  also have "\<dots> = (if 1 < length (filter (\<lambda>x. x = w) ?xs) then 1 else 0)"
  proof (cases "w \<in> set ?xs")
    case True
    then show ?thesis by auto
  next
    case False
    then have "filter (\<lambda>x. x = w) ?xs = []" by (auto simp: filter_empty_conv)
    with False show ?thesis by simp
  qed
  also have "\<dots> = (if w \<noteq> MISSING \<and> 1 < length (filter (\<lambda>s. awb s = w) ss) then 1 else 0)"
    by (simp only: awb_occurrences) simp
  finally show ?thesis .
qed

section \<open>The double count check\<close>

lemma line_key_occurrences:
  "(\<exists>k. 1 < length (filter (\<lambda>x. x = k) (concat (map (\<lambda>s. map line_key (lines s)) dupes))))
   \<longleftrightarrow> (\<exists>c sp. 1 < length (filter (\<lambda>l. lower (customer_name l) = c \<and> lower (species l) = sp)
                   (concat (map lines dupes))))"
proof -
  have eq: "concat (map (\<lambda>s. map line_key (lines s)) dupes) = map line_key (concat (map lines dupes))"
    by (simp add: map_concat comp_def)
  have len: "length (filter (\<lambda>x. x = (c, sp)) (map line_key ls))
      = length (filter (\<lambda>l. lower (customer_name l) = c \<and> lower (species l) = sp) ls)" for c sp ls
    by (simp add: filter_map comp_def line_key_def)
  show ?thesis
    unfolding eq
  proof
    assume "\<exists>k. 1 < length (filter (\<lambda>x. x = k) (map line_key (concat (map lines dupes))))"
    then obtain k where k: "1 < length (filter (\<lambda>x. x = k) (map line_key (concat (map lines dupes))))"
      by blast
    obtain c sp where "k = (c, sp)" by (cases k)
    with k len [of c sp "concat (map lines dupes)"]
    show "\<exists>c sp. 1 < length (filter (\<lambda>l. lower (customer_name l) = c \<and> lower (species l) = sp)
                   (concat (map lines dupes)))"
      by auto
  next
    assume "\<exists>c sp. 1 < length (filter (\<lambda>l. lower (customer_name l) = c \<and> lower (species l) = sp)
                   (concat (map lines dupes)))"
    then obtain c sp where "1 < length (filter (\<lambda>l. lower (customer_name l) = c \<and> lower (species l) = sp)
                   (concat (map lines dupes)))"
      by blast
    with len [of c sp "concat (map lines dupes)"]
    have "1 < length (filter (\<lambda>x. x = (c, sp)) (map line_key (concat (map lines dupes))))"
      by simp
    then show "\<exists>k. 1 < length (filter (\<lambda>x. x = k) (map line_key (concat (map lines dupes))))"
      by blast
  qed
qed

lemma double_count_step_member:
  assumes "a \<in> set (double_count_step ss [] (w, n))"
  shows "anomaly_type a = DOUBLE_COUNT \<and> related_awb a = Some w
    \<and> related_emails a = concat (map source_email_ids (filter (\<lambda>s. awb s = w) ss))
    \<and> severity a =
        (if \<exists>c sp. 1 < length (filter (\<lambda>l. lower (customer_name l) = c \<and> lower (species l) = sp)
                   (concat (map lines (filter (\<lambda>s. awb s = w) ss))))
         then ERROR else WARNING)"
proof -
  let ?all = "concat (map (\<lambda>s. map line_key (lines s)) (filter (\<lambda>s. awb s = w) ss))"
  have sev: "filter (\<lambda>(k, v). v > 1) (Counter ?all) \<noteq> [] \<longleftrightarrow>
      (\<exists>c sp. 1 < length (filter (\<lambda>l. lower (customer_name l) = c \<and> lower (species l) = sp)
                   (concat (map lines (filter (\<lambda>s. awb s = w) ss)))))"
    by (simp only: Counter_has_repeat line_key_occurrences)
  from assms show ?thesis
    unfolding double_count_step_def Let_def
    using sev by (auto split: if_splits)
qed

lemma check_double_counts_member:
  assumes "a \<in> set (check_double_counts ss)"
  shows "\<exists>w n. a \<in> set (double_count_step ss [] (w, n))"
  using assms unfolding check_double_counts_concat by auto

text \<open>
  C1: \<open>check_double_counts\<close> emits exactly one DOUBLE\_COUNT anomaly for each AWB other
  than "MISSING" that more than one shipment carries, and none for any other AWB, so that
  a list without a repeated AWB yields no anomaly. Every anomaly is of type DOUBLE\_COUNT
  and names its AWB; its severity is ERROR when some pair of lowercased customer name and
  lowercased species occurs more than once among the lines of the shipments with that
  AWB, and WARNING otherwise.
\<close>

theorem check_double_counts_one_per_repeated_awb:
  "(\<forall>w. length (filter (\<lambda>a. related_awb a = Some w) (check_double_counts ss))
         = (if w \<noteq> ''MISSING'' \<and> 1 < length (filter (\<lambda>s. awb s = w) ss) then 1 else 0))
   \<and> (\<forall>a \<in> set (check_double_counts ss). anomaly_type a = DOUBLE_COUNT
         \<and> (\<exists>w. related_awb a = Some w \<and> severity a =
              (if \<exists>c sp. 1 < length (filter (\<lambda>l. lower (customer_name l) = c \<and> lower (species l) = sp)
                     (concat (map lines (filter (\<lambda>s. awb s = w) ss))))
               then ERROR else WARNING)))
   \<and> ((\<forall>w. w \<noteq> ''MISSING'' \<longrightarrow> length (filter (\<lambda>s. awb s = w) ss) \<le> 1)
        \<longrightarrow> check_double_counts ss = [])"
proof -
  have one: "length (filter (\<lambda>a. related_awb a = Some w) (check_double_counts ss))
         = (if w \<noteq> ''MISSING'' \<and> 1 < length (filter (\<lambda>s. awb s = w) ss) then 1 else 0)" for w
    using check_double_counts_per_awb [of w ss] by (simp add: MISSING_def)
  have two: "anomaly_type a = DOUBLE_COUNT
         \<and> (\<exists>w. related_awb a = Some w \<and> severity a =
              (if \<exists>c sp. 1 < length (filter (\<lambda>l. lower (customer_name l) = c \<and> lower (species l) = sp)
                     (concat (map lines (filter (\<lambda>s. awb s = w) ss))))
               then ERROR else WARNING))"
    if "a \<in> set (check_double_counts ss)" for a
  proof -
    from that obtain w n where "a \<in> set (double_count_step ss [] (w, n))"
      using check_double_counts_member by blast
    from double_count_step_member [OF this] show ?thesis by blast
  qed
  have three: "check_double_counts ss = []"
    if none: "\<forall>w. w \<noteq> ''MISSING'' \<longrightarrow> length (filter (\<lambda>s. awb s = w) ss) \<le> 1"
  proof (rule ccontr)
    assume "check_double_counts ss \<noteq> []"
    then obtain a where a: "a \<in> set (check_double_counts ss)"
      by (cases "check_double_counts ss") auto
    with two obtain w where w: "related_awb a = Some w" by blast
    with a have "filter (\<lambda>a. related_awb a = Some w) (check_double_counts ss) \<noteq> []"
      by (auto simp: filter_empty_conv)
    then have "0 < length (filter (\<lambda>a. related_awb a = Some w) (check_double_counts ss))"
      by simp
    with one [of w] have "w \<noteq> ''MISSING'' \<and> 1 < length (filter (\<lambda>s. awb s = w) ss)"
      by (simp split: if_splits)
    with none show False by auto
  qed
  from one two three show ?thesis by blast
qed

text \<open>
  The theorem at the inputs of the spec: two shipments with one AWB and the same line give
  one ERROR, two with one AWB and different lines give one WARNING, and the mock
  shipments, whose AWBs differ, give nothing.
\<close>

theorem check_double_counts_one_per_repeated_awb_witness:
  "length (filter (\<lambda>a. related_awb a = Some ''12345678901'') (check_double_counts double_counted)) = 1
   \<and> map (\<lambda>a. (anomaly_type a, severity a)) (check_double_counts double_counted)
       = [(DOUBLE_COUNT, ERROR)]
   \<and> map (\<lambda>a. (anomaly_type a, severity a)) (check_double_counts split_shipment)
       = [(DOUBLE_COUNT, WARNING)]
   \<and> check_double_counts mock_shipments = []"
proof -
  have occ: "length (filter (\<lambda>s. awb s = ''12345678901'') double_counted) = 2"
    by (simp add: double_counted_def test_shipment_def)
  have a: "length (filter (\<lambda>a. related_awb a = Some ''12345678901'')
      (check_double_counts double_counted)) = 1"
    using check_double_counts_one_per_repeated_awb [of double_counted] occ by simp
  have b: "map (\<lambda>a. (anomaly_type a, severity a)) (check_double_counts double_counted)
       = [(DOUBLE_COUNT, ERROR)]"
    by code_simp
  have c: "map (\<lambda>a. (anomaly_type a, severity a)) (check_double_counts split_shipment)
       = [(DOUBLE_COUNT, WARNING)]"
    by code_simp
  have "\<forall>w. w \<noteq> ''MISSING'' \<longrightarrow> length (filter (\<lambda>s. awb s = w) mock_shipments) \<le> 1"
    by (simp add: mock_shipments_def test_shipment_def)
  with check_double_counts_one_per_repeated_awb [of mock_shipments] have d: "check_double_counts mock_shipments = []"
    by blast
  from a b c d show ?thesis by blast
qed

text \<open>
  C6, as the spec states it: \<open>related_emails\<close> holds each email id at most once. Two
  shipments with the same AWB that both come from the email \<open>msg_001\<close> give an anomaly
  that lists \<open>msg_001\<close> twice.
\<close>

theorem check_double_counts_related_emails_repeat:
  "map related_emails (check_double_counts double_counted) = [[''msg_001'', ''msg_001'']]"
  by code_simp

text \<open>
  C6, amended: the \<open>related_emails\<close> of a DOUBLE\_COUNT anomaly, of either severity, is
  the concatenation of the \<open>source_email_ids\<close> of the shipments with the anomaly's AWB,
  in the order of the shipments. The ids it holds are the union of the ids of these
  shipments; an id appears once for each time a shipment lists it.
\<close>

theorem check_double_counts_related_emails_concat:
  "\<forall>a \<in> set (check_double_counts ss). \<exists>w. related_awb a = Some w
      \<and> related_emails a = concat (map source_email_ids (filter (\<lambda>s. awb s = w) ss))
      \<and> set (related_emails a) = (\<Union>s \<in> {s \<in> set ss. awb s = w}. set (source_email_ids s))"
proof
  fix a assume "a \<in> set (check_double_counts ss)"
  then obtain w n where "a \<in> set (double_count_step ss [] (w, n))"
    using check_double_counts_member by blast
  then have "related_awb a = Some w"
    and re: "related_emails a = concat (map source_email_ids (filter (\<lambda>s. awb s = w) ss))"
    using double_count_step_member by blast+
  moreover have "set (related_emails a) = (\<Union>s \<in> {s \<in> set ss. awb s = w}. set (source_email_ids s))"
    unfolding re by auto
  ultimately show "\<exists>w. related_awb a = Some w
      \<and> related_emails a = concat (map source_email_ids (filter (\<lambda>s. awb s = w) ss))
      \<and> set (related_emails a) = (\<Union>s \<in> {s \<in> set ss. awb s = w}. set (source_email_ids s))"
    by blast
qed

text \<open>The theorem at the split shipment, whose check yields an anomaly.\<close>

theorem check_double_counts_related_emails_concat_witness:
  "\<exists>a. a \<in> set (check_double_counts split_shipment) \<and> (\<exists>w. related_awb a = Some w
      \<and> related_emails a = concat (map source_email_ids (filter (\<lambda>s. awb s = w) split_shipment))
      \<and> set (related_emails a)
          = (\<Union>s \<in> {s \<in> set split_shipment. awb s = w}. set (source_email_ids s)))"
proof -
  have "check_double_counts split_shipment \<noteq> []" by code_simp
  then obtain a where "a \<in> set (check_double_counts split_shipment)"
    by (cases "check_double_counts split_shipment") auto
  with check_double_counts_related_emails_concat [of split_shipment] show ?thesis by blast
qed

section \<open>The AWB pattern\<close>

lemma digit_is_word: "is_digit c \<Longrightarrow> is_word c"
  by (simp add: is_word_def)

lemma sep_not_word: "is_sep c \<Longrightarrow> \<not> is_word c"
  by (auto simp: is_sep_def is_word_def is_digit_def is_space_def code_def)

lemma digit_not_sep: "is_digit c \<Longrightarrow> \<not> is_sep c"
  using digit_is_word sep_not_word by blast

lemma digits_iff:
  "digits n s = Some (m, r) \<longleftrightarrow> s = m @ r \<and> length m = n \<and> (\<forall>c \<in> set m. is_digit c)"
proof (induction n s arbitrary: m r rule: digits.induct)
  case (1 s)
  show ?case by auto
next
  case (2 n)
  show ?case by auto
next
  case (3 n c s)
  show ?case
  proof (cases "is_digit c")
    case False
    then show ?thesis by (cases m) auto
  next
    case True
    show ?thesis
    proof (cases m)
      case Nil
      with True show ?thesis by (auto split: option.splits)
    next
      case (Cons a m')
      with True 3 [OF True, of m' r] show ?thesis
        by (auto split: option.splits)
    qed
  qed
qed

lemma digits_None_iff:
  "digits n s = None \<longleftrightarrow> \<not> (\<exists>a r. s = a @ r \<and> length a = n \<and> (\<forall>c \<in> set a. is_digit c))"
proof -
  have "digits n s = None \<longleftrightarrow> (\<forall>a r. digits n s \<noteq> Some (a, r))"
    by (cases "digits n s") auto
  then show ?thesis by (auto simp: digits_iff)
qed

lemma awb_group3_iff:
  "awb_group3 pre s = Some m \<longleftrightarrow>
     (\<exists>c r. s = c @ r \<and> length c = 4 \<and> (\<forall>x \<in> set c. is_digit x)
        \<and> next_char r \<notin> Some ` {x. is_word x} \<and> m = pre @ c)"
proof (cases "digits 4 s")
  case None
  then have "awb_group3 pre s = None" by (simp add: awb_group3_def)
  moreover from None have "\<not> (\<exists>c r. s = c @ r \<and> length c = 4 \<and> (\<forall>x \<in> set c. is_digit x))"
    by (simp add: digits_None_iff)
  ultimately show ?thesis by auto
next
  case (Some cr)
  obtain c r where cr: "cr = (c, r)" by (cases cr)
  with Some have d: "s = c @ r" "length c = 4" "\<forall>x \<in> set c. is_digit x"
    by (simp_all add: digits_iff)
  from d have "c \<noteq> []" by auto
  then have "last c \<in> set c" by simp
  with d have w: "is_word (last c)" by (simp add: digit_is_word)
  have b: "word_boundary (Some (last c)) (next_char r) \<longleftrightarrow> next_char r \<notin> Some ` {x. is_word x}"
    using w by (auto simp: word_boundary_def split: option.splits)
  have uniq: "c' = c \<and> r' = r" if "s = c' @ r'" "length c' = 4" for c' r'
    using that d by (auto simp: append_eq_append_conv)
  have "awb_group3 pre s = Some m \<longleftrightarrow> next_char r \<notin> Some ` {x. is_word x} \<and> m = pre @ c"
    using Some cr b by (auto simp: awb_group3_def)
  also have "\<dots> \<longleftrightarrow> (\<exists>c r. s = c @ r \<and> length c = 4 \<and> (\<forall>x \<in> set c. is_digit x)
        \<and> next_char r \<notin> Some ` {x. is_word x} \<and> m = pre @ c)"
    using d uniq by blast
  finally show ?thesis .
qed

lemma awb_group3_sep_head: "is_sep x \<Longrightarrow> awb_group3 pre (x # r) = None"
  using digit_not_sep [of x] by (auto simp: awb_group3_def numeral_eq_Suc)

lemma optional_sep_cases:
  "(\<exists>q r'. s = q @ r' \<and> (q = [] \<or> (\<exists>x. q = [x] \<and> is_sep x)) \<and> P q r')
     \<longleftrightarrow> P [] s \<or> (\<exists>x r. s = x # r \<and> is_sep x \<and> P [x] r)"
proof
  assume "\<exists>q r'. s = q @ r' \<and> (q = [] \<or> (\<exists>x. q = [x] \<and> is_sep x)) \<and> P q r'"
  then obtain q r' where s: "s = q @ r'" and q: "q = [] \<or> (\<exists>x. q = [x] \<and> is_sep x)"
    and p: "P q r'" by blast
  from q show "P [] s \<or> (\<exists>x r. s = x # r \<and> is_sep x \<and> P [x] r)"
  proof
    assume "q = []"
    with s p show ?thesis by simp
  next
    assume "\<exists>x. q = [x] \<and> is_sep x"
    then obtain y where "q = [y]" "is_sep y" by blast
    with s p have "s = y # r' \<and> is_sep y \<and> P [y] r'" by simp
    then show ?thesis by blast
  qed
next
  assume "P [] s \<or> (\<exists>x r. s = x # r \<and> is_sep x \<and> P [x] r)"
  then show "\<exists>q r'. s = q @ r' \<and> (q = [] \<or> (\<exists>x. q = [x] \<and> is_sep x)) \<and> P q r'"
  proof
    assume "P [] s"
    then have "s = [] @ s \<and> ([] = [] \<or> (\<exists>x. [] = [x] \<and> is_sep x)) \<and> P [] s" by simp
    then show ?thesis by blast
  next
    assume "\<exists>x r. s = x # r \<and> is_sep x \<and> P [x] r"
    then obtain x r where "s = x # r" "is_sep x" "P [x] r" by blast
    then have "s = [x] @ r \<and> ([x] = [] \<or> (\<exists>y. [x] = [y] \<and> is_sep y)) \<and> P [x] r" by simp
    then show ?thesis by blast
  qed
qed

lemma first_match_opt_sep:
  assumes "\<And>pre x r. is_sep x \<Longrightarrow> G pre (x # r) = None"
  shows "first_match (\<lambda>(q, r'). G (pre @ q) r') (opt_sep s) = Some m \<longleftrightarrow>
     (\<exists>q r'. s = q @ r' \<and> (q = [] \<or> (\<exists>x. q = [x] \<and> is_sep x)) \<and> G (pre @ q) r' = Some m)"
proof -
  have "first_match (\<lambda>(q, r'). G (pre @ q) r') (opt_sep s) = Some m \<longleftrightarrow>
      G (pre @ []) s = Some m \<or> (\<exists>x r. s = x # r \<and> is_sep x \<and> G (pre @ [x]) r = Some m)"
  proof (cases s)
    case Nil
    then show ?thesis by (auto simp: opt_sep_def split: option.splits)
  next
    case (Cons x r)
    show ?thesis
    proof (cases "is_sep x")
      case True
      with Cons assms [of x pre r] show ?thesis
        by (auto simp: opt_sep_def split: option.splits)
    next
      case False
      with Cons show ?thesis by (auto simp: opt_sep_def split: option.splits)
    qed
  qed
  then show ?thesis
    by (simp only: optional_sep_cases [where P = "\<lambda>q r'. G (pre @ q) r' = Some m"])
qed

lemma awb_group2_sep_head: "is_sep x \<Longrightarrow> awb_group2 pre (x # r) = None"
  using digit_not_sep [of x] by (auto simp: awb_group2_def numeral_eq_Suc)

lemma awb_group2_iff:
  "awb_group2 pre s = Some m \<longleftrightarrow>
     (\<exists>b q c r. s = b @ q @ c @ r \<and> length b = 4 \<and> (\<forall>x \<in> set b. is_digit x)
        \<and> (q = [] \<or> (\<exists>x. q = [x] \<and> is_sep x))
        \<and> length c = 4 \<and> (\<forall>x \<in> set c. is_digit x)
        \<and> next_char r \<notin> Some ` {x. is_word x} \<and> m = pre @ b @ q @ c)"
  (is "?L \<longleftrightarrow> ?R")
proof (cases "digits 4 s")
  case None
  then have "awb_group2 pre s = None" by (simp add: awb_group2_def)
  moreover from None have "\<not> (\<exists>b r. s = b @ r \<and> length b = 4 \<and> (\<forall>x \<in> set b. is_digit x))"
    by (simp add: digits_None_iff)
  then have "\<not> ?R" by blast
  ultimately show ?thesis by simp
next
  case (Some br)
  obtain b r1 where br: "br = (b, r1)" by (cases br)
  with Some have d: "s = b @ r1" "length b = 4" "\<forall>x \<in> set b. is_digit x"
    by (simp_all add: digits_iff)
  have uniq: "b' = b \<and> r' = r1" if "s = b' @ r'" "length b' = 4" for b' r'
    using that d by (auto simp: append_eq_append_conv)
  have "?L \<longleftrightarrow> first_match (\<lambda>(q, r'). awb_group3 ((pre @ b) @ q) r') (opt_sep r1) = Some m"
    using Some br by (simp add: awb_group2_def)
  also have "\<dots> \<longleftrightarrow> (\<exists>q r'. r1 = q @ r' \<and> (q = [] \<or> (\<exists>x. q = [x] \<and> is_sep x))
      \<and> awb_group3 ((pre @ b) @ q) r' = Some m)"
    by (rule first_match_opt_sep) (rule awb_group3_sep_head)
  also have "\<dots> \<longleftrightarrow> (\<exists>q c r. r1 = q @ c @ r \<and> (q = [] \<or> (\<exists>x. q = [x] \<and> is_sep x))
        \<and> length c = 4 \<and> (\<forall>x \<in> set c. is_digit x)
        \<and> next_char r \<notin> Some ` {x. is_word x} \<and> m = pre @ b @ q @ c)"
    unfolding awb_group3_iff by auto
  also have "\<dots> \<longleftrightarrow> ?R"
  proof
    assume "\<exists>q c r. r1 = q @ c @ r \<and> (q = [] \<or> (\<exists>x. q = [x] \<and> is_sep x))
        \<and> length c = 4 \<and> (\<forall>x \<in> set c. is_digit x)
        \<and> next_char r \<notin> Some ` {x. is_word x} \<and> m = pre @ b @ q @ c"
    with d show ?R by blast
  next
    assume ?R
    then obtain b' q c r where r: "s = b' @ q @ c @ r" "length b' = 4"
      "q = [] \<or> (\<exists>x. q = [x] \<and> is_sep x)" "length c = 4" "\<forall>x \<in> set c. is_digit x"
      "next_char r \<notin> Some ` {x. is_word x}" "m = pre @ b' @ q @ c"
      by blast
    from uniq [of b' "q @ c @ r"] r have "b' = b" "r1 = q @ c @ r" by simp_all
    with r show "\<exists>q c r. r1 = q @ c @ r \<and> (q = [] \<or> (\<exists>x. q = [x] \<and> is_sep x))
        \<and> length c = 4 \<and> (\<forall>x \<in> set c. is_digit x)
        \<and> next_char r \<notin> Some ` {x. is_word x} \<and> m = pre @ b @ q @ c"
      by blast
  qed
  finally show ?thesis .
qed

lemma awb_match_iff:
  "awb_match prev s = Some m \<longleftrightarrow>
     prev \<notin> Some ` {x. is_word x}
     \<and> (\<exists>a p b q c r. s = a @ p @ b @ q @ c @ r
        \<and> length a = 3 \<and> (\<forall>x \<in> set a. is_digit x)
        \<and> (p = [] \<or> (\<exists>x. p = [x] \<and> is_sep x))
        \<and> length b = 4 \<and> (\<forall>x \<in> set b. is_digit x)
        \<and> (q = [] \<or> (\<exists>x. q = [x] \<and> is_sep x))
        \<and> length c = 4 \<and> (\<forall>x \<in> set c. is_digit x)
        \<and> next_char r \<notin> Some ` {x. is_word x} \<and> m = a @ p @ b @ q @ c)"
  (is "?L \<longleftrightarrow> ?B \<and> ?R")
proof (cases "digits 3 s")
  case None
  then have "awb_match prev s = None" by (simp add: awb_match_def)
  moreover from None have "\<not> (\<exists>a r. s = a @ r \<and> length a = 3 \<and> (\<forall>x \<in> set a. is_digit x))"
    by (simp add: digits_None_iff)
  then have "\<not> ?R" by blast
  ultimately show ?thesis by simp
next
  case (Some ar)
  obtain a r1 where ar: "ar = (a, r1)" by (cases ar)
  with Some have d: "s = a @ r1" "length a = 3" "\<forall>x \<in> set a. is_digit x"
    by (simp_all add: digits_iff)
  from d obtain x a' where a: "a = x # a'" by (cases a) auto
  with d have "is_word x" by (simp add: digit_is_word)
  with d a have wb: "word_boundary prev (next_char s) \<longleftrightarrow> ?B"
    by (auto simp: word_boundary_def next_char_def split: option.splits)
  have uniq: "a' = a \<and> r' = r1" if "s = a' @ r'" "length a' = 3" for a' r'
    using that d by (auto simp: append_eq_append_conv)
  have "?L \<longleftrightarrow> ?B \<and> first_match (\<lambda>(p, r'). awb_group2 (a @ p) r') (opt_sep r1) = Some m"
    using Some ar wb by (simp add: awb_match_def)
  also have "first_match (\<lambda>(p, r'). awb_group2 (a @ p) r') (opt_sep r1) = Some m
      \<longleftrightarrow> (\<exists>p r'. r1 = p @ r' \<and> (p = [] \<or> (\<exists>x. p = [x] \<and> is_sep x))
      \<and> awb_group2 (a @ p) r' = Some m)"
    by (rule first_match_opt_sep) (rule awb_group2_sep_head)
  also have "\<dots> \<longleftrightarrow> (\<exists>p b q c r. r1 = p @ b @ q @ c @ r
        \<and> (p = [] \<or> (\<exists>x. p = [x] \<and> is_sep x))
        \<and> length b = 4 \<and> (\<forall>x \<in> set b. is_digit x)
        \<and> (q = [] \<or> (\<exists>x. q = [x] \<and> is_sep x))
        \<and> length c = 4 \<and> (\<forall>x \<in> set c. is_digit x)
        \<and> next_char r \<notin> Some ` {x. is_word x} \<and> m = a @ p @ b @ q @ c)"
    (is "?P \<longleftrightarrow> ?Q")
  proof
    assume ?P
    then obtain p r' where p: "r1 = p @ r'" "p = [] \<or> (\<exists>x. p = [x] \<and> is_sep x)"
      and g: "awb_group2 (a @ p) r' = Some m" by blast
    from g obtain b q c r where r: "r' = b @ q @ c @ r" "length b = 4" "\<forall>x \<in> set b. is_digit x"
      "q = [] \<or> (\<exists>x. q = [x] \<and> is_sep x)" "length c = 4" "\<forall>x \<in> set c. is_digit x"
      "next_char r \<notin> Some ` {x. is_word x}" "m = (a @ p) @ b @ q @ c"
      unfolding awb_group2_iff by blast
    from p r have "r1 = p @ b @ q @ c @ r" "m = a @ p @ b @ q @ c" by simp_all
    with p r show ?Q by blast
  next
    assume ?Q
    then obtain p b q c r where r: "r1 = p @ b @ q @ c @ r"
      "p = [] \<or> (\<exists>x. p = [x] \<and> is_sep x)" "length b = 4" "\<forall>x \<in> set b. is_digit x"
      "q = [] \<or> (\<exists>x. q = [x] \<and> is_sep x)" "length c = 4" "\<forall>x \<in> set c. is_digit x"
      "next_char r \<notin> Some ` {x. is_word x}" "m = a @ p @ b @ q @ c"
      by blast
    then have "m = (a @ p) @ b @ q @ c" by simp
    with r have "awb_group2 (a @ p) (b @ q @ c @ r) = Some m"
      unfolding awb_group2_iff by blast
    with r show ?P by blast
  qed
  also have "?Q \<longleftrightarrow> ?R"
  proof
    assume "\<exists>p b q c r. r1 = p @ b @ q @ c @ r
        \<and> (p = [] \<or> (\<exists>x. p = [x] \<and> is_sep x))
        \<and> length b = 4 \<and> (\<forall>x \<in> set b. is_digit x)
        \<and> (q = [] \<or> (\<exists>x. q = [x] \<and> is_sep x))
        \<and> length c = 4 \<and> (\<forall>x \<in> set c. is_digit x)
        \<and> next_char r \<notin> Some ` {x. is_word x} \<and> m = a @ p @ b @ q @ c"
    with d show ?R by blast
  next
    assume ?R
    then obtain a' p b q c r where r: "s = a' @ p @ b @ q @ c @ r" "length a' = 3"
      "p = [] \<or> (\<exists>x. p = [x] \<and> is_sep x)" "length b = 4" "\<forall>x \<in> set b. is_digit x"
      "q = [] \<or> (\<exists>x. q = [x] \<and> is_sep x)" "length c = 4" "\<forall>x \<in> set c. is_digit x"
      "next_char r \<notin> Some ` {x. is_word x}" "m = a' @ p @ b @ q @ c"
      by blast
    from uniq [of a' "p @ b @ q @ c @ r"] r have "a' = a" "r1 = p @ b @ q @ c @ r" by simp_all
    with r show "\<exists>p b q c r. r1 = p @ b @ q @ c @ r
        \<and> (p = [] \<or> (\<exists>x. p = [x] \<and> is_sep x))
        \<and> length b = 4 \<and> (\<forall>x \<in> set b. is_digit x)
        \<and> (q = [] \<or> (\<exists>x. q = [x] \<and> is_sep x))
        \<and> length c = 4 \<and> (\<forall>x \<in> set c. is_digit x)
        \<and> next_char r \<notin> Some ` {x. is_word x} \<and> m = a @ p @ b @ q @ c"
      by blast
  qed
  finally show ?thesis .
qed

lemma no_match_after_word: "is_word x \<Longrightarrow> awb_match (Some x) t = None"
proof -
  assume "is_word x"
  then have "\<not> (Some x \<notin> Some ` {x. is_word x})" by simp
  then have "awb_match (Some x) t \<noteq> Some m" for m
    unfolding awb_match_iff by blast
  then show ?thesis by (cases "awb_match (Some x) t") auto
qed

lemma no_digit_run: "next_char r \<notin> Some ` {x. is_word x} \<Longrightarrow> takeWhile is_digit r = []"
  by (cases r) (auto simp: next_char_def digit_is_word)

lemma match_digit_run:
  assumes "awb_match prev s = Some m"
  shows "length (takeWhile is_digit s) \<in> {3, 7, 11}"
proof -
  from assms obtain a p b q c r where s: "s = a @ p @ b @ q @ c @ r"
    and a: "length a = 3" "\<forall>x \<in> set a. is_digit x"
    and p: "p = [] \<or> (\<exists>x. p = [x] \<and> is_sep x)"
    and b: "length b = 4" "\<forall>x \<in> set b. is_digit x"
    and q: "q = [] \<or> (\<exists>x. q = [x] \<and> is_sep x)"
    and c: "length c = 4" "\<forall>x \<in> set c. is_digit x"
    and r: "next_char r \<notin> Some ` {x. is_word x}"
    unfolding awb_match_iff by blast
  have ra: "takeWhile is_digit (a @ t) = a @ takeWhile is_digit t" for t
    using a by (simp add: takeWhile_append2)
  have rb: "takeWhile is_digit (b @ t) = b @ takeWhile is_digit t" for t
    using b by (simp add: takeWhile_append2)
  have rc: "takeWhile is_digit (c @ t) = c @ takeWhile is_digit t" for t
    using c by (simp add: takeWhile_append2)
  have rr: "takeWhile is_digit r = []" using r by (rule no_digit_run)
  from p show ?thesis
  proof
    assume "\<exists>x. p = [x] \<and> is_sep x"
    then obtain x where "p = [x]" "is_sep x" by blast
    moreover from this have "\<not> is_digit x" using digit_not_sep by blast
    ultimately show ?thesis using s a by (simp add: ra)
  next
    assume p0: "p = []"
    from q show ?thesis
    proof
      assume "\<exists>x. q = [x] \<and> is_sep x"
      then obtain y where "q = [y]" "is_sep y" by blast
      moreover from this have "\<not> is_digit y" using digit_not_sep by blast
      ultimately show ?thesis using s p0 a b by (simp add: ra rb)
    next
      assume "q = []"
      with s p0 a b c show ?thesis by (simp add: ra rb rc rr)
    qed
  qed
qed

lemma no_match_other_run:
  "length (takeWhile is_digit s) \<notin> {3, 7, 11} \<Longrightarrow> awb_match prev s = None"
  using match_digit_run [of prev s] by (cases "awb_match prev s") auto


lemma list_of_3: "length xs = 3 \<Longrightarrow> \<exists>x1 x2 x3. xs = [x1, x2, x3]"
  by (auto simp: numeral_eq_Suc length_Suc_conv)

lemma list_of_4: "length xs = 4 \<Longrightarrow> \<exists>x1 x2 x3 x4. xs = [x1, x2, x3, x4]"
  by (auto simp: numeral_eq_Suc length_Suc_conv)

lemma no_match_inside:
  assumes "awb_match prev (c # s) = Some m"
  shows "matches_at_every_position (Some c) s
           = matches_at_every_position (Some (last m)) (drop (length m - 1) s)"
proof -
  from assms obtain a p b q c' r where s: "c # s = a @ p @ b @ q @ c' @ r"
    and a: "length a = 3" "\<forall>x \<in> set a. is_digit x"
    and p: "p = [] \<or> (\<exists>x. p = [x] \<and> is_sep x)"
    and b: "length b = 4" "\<forall>x \<in> set b. is_digit x"
    and q: "q = [] \<or> (\<exists>x. q = [x] \<and> is_sep x)"
    and c: "length c' = 4" "\<forall>x \<in> set c'. is_digit x"
    and r: "next_char r \<notin> Some ` {x. is_word x}"
    and m: "m = a @ p @ b @ q @ c'"
    unfolding awb_match_iff by blast
  from a obtain a1 a2 a3 where a': "a = [a1, a2, a3]" using list_of_3 by blast
  from b obtain b1 b2 b3 b4 where b': "b = [b1, b2, b3, b4]" using list_of_4 by blast
  from c obtain c1 c2 c3 c4 where c': "c' = [c1, c2, c3, c4]" using list_of_4 by blast
  from a a' b b' c c' have d: "is_digit a1" "is_digit a2" "is_digit a3"
    "is_digit b1" "is_digit b2" "is_digit b3" "is_digit b4"
    "is_digit c1" "is_digit c2" "is_digit c3" "is_digit c4" by simp_all
  then have w: "is_word a1" "is_word a2" "is_word a3"
    "is_word b1" "is_word b2" "is_word b3" "is_word b4"
    "is_word c1" "is_word c2" "is_word c3" "is_word c4" by (simp_all add: digit_is_word)
  have rr: "takeWhile is_digit r = []" using r by (rule no_digit_run)
  note rules = no_match_after_word no_match_other_run
  from p q consider
      (none) "p = []" "q = []"
    | (second) y where "p = []" "q = [y]" "is_sep y"
    | (first) x where "p = [x]" "is_sep x" "q = []"
    | (both) x y where "p = [x]" "is_sep x" "q = [y]" "is_sep y"
    by blast
  then show ?thesis
  proof cases
    case none
    with s m a' b' c' have "c = a1" "s = [a2, a3, b1, b2, b3, b4, c1, c2, c3, c4] @ r"
      "m = [a1, a2, a3, b1, b2, b3, b4, c1, c2, c3, c4]" by simp_all
    then show ?thesis using w by (simp add: rules)
  next
    case second
    then have ny: "\<not> is_digit y" using digit_not_sep by blast
    from second s m a' b' c' have "c = a1" "s = [a2, a3, b1, b2, b3, b4, y, c1, c2, c3, c4] @ r"
      "m = [a1, a2, a3, b1, b2, b3, b4, y, c1, c2, c3, c4]" by simp_all
    then show ?thesis using w d ny rr by (simp add: rules)
  next
    case first
    then have nx: "\<not> is_digit x" using digit_not_sep by blast
    from first s m a' b' c' have "c = a1" "s = [a2, a3, x, b1, b2, b3, b4, c1, c2, c3, c4] @ r"
      "m = [a1, a2, a3, x, b1, b2, b3, b4, c1, c2, c3, c4]" by simp_all
    then show ?thesis using w d nx rr by (simp add: rules)
  next
    case both
    then have nx: "\<not> is_digit x" "\<not> is_digit y" using digit_not_sep by blast+
    from both s m a' b' c' have "c = a1" "s = [a2, a3, x, b1, b2, b3, b4, y, c1, c2, c3, c4] @ r"
      "m = [a1, a2, a3, x, b1, b2, b3, b4, y, c1, c2, c3, c4]" by simp_all
    then show ?thesis using w d nx rr by (simp add: rules)
  qed
qed

lemma findall_awb_every_position:
  "findall_awb prev s = matches_at_every_position prev s"
proof (induction prev s rule: findall_awb.induct)
  case (1 prev)
  show ?case by simp
next
  case (2 prev c s)
  show ?case
  proof (cases "awb_match prev (c # s)")
    case None
    with 2 show ?thesis by simp
  next
    case (Some m)
    with 2 no_match_inside [OF Some] show ?thesis by simp
  qed
qed

lemma matches_are_matches:
  "m \<in> set (matches_at_every_position prev s) \<Longrightarrow> \<exists>prev' s'. awb_match prev' s' = Some m"
proof (induction prev s rule: matches_at_every_position.induct)
  case (1 prev)
  then show ?case by simp
next
  case (2 prev c s)
  show ?case
  proof (cases "awb_match prev (c # s) = Some m")
    case True
    then show ?thesis by blast
  next
    case False
    with 2 show ?thesis by (auto split: option.splits)
  qed
qed

lemma strip_seps_match:
  assumes "awb_match prev s = Some m"
  shows "length (strip_seps m) = 11 \<and> (\<forall>x \<in> set (strip_seps m). is_digit x)"
proof -
  from assms obtain a p b q c where m: "m = a @ p @ b @ q @ c"
    and a: "length a = 3" "\<forall>x \<in> set a. is_digit x"
    and p: "p = [] \<or> (\<exists>x. p = [x] \<and> is_sep x)"
    and b: "length b = 4" "\<forall>x \<in> set b. is_digit x"
    and q: "q = [] \<or> (\<exists>x. q = [x] \<and> is_sep x)"
    and c: "length c = 4" "\<forall>x \<in> set c. is_digit x"
    unfolding awb_match_iff by blast
  have keep: "filter (\<lambda>x. \<not> is_sep x) d = d" if "\<forall>x \<in> set d. is_digit x" for d
    using that digit_not_sep by (auto simp: filter_id_conv)
  have drop: "filter (\<lambda>x. \<not> is_sep x) t = []" if "t = [] \<or> (\<exists>x. t = [x] \<and> is_sep x)" for t
    using that by auto
  have "strip_seps m = a @ b @ c"
    using a b c by (simp add: strip_seps_def m keep drop [OF p] drop [OF q])
  with a b c show ?thesis by auto
qed

text \<open>
  C9: \<open>extract_awbs\<close> returns the matches of the AWB pattern at all positions of the
  text, in document order and with duplicates, each with its hyphens and whitespace
  removed, which leaves eleven digits. A match of the pattern at a position is three
  digits, four digits and four digits, with at most one hyphen or whitespace character
  between two groups, not preceded and not followed by a word character. The two texts of
  the spec yield \<open>12345678901\<close>, and a text that holds the number twice yields it twice.
\<close>

theorem extract_awbs_all_matches_in_order:
  "extract_awbs text = map strip_seps (matches_at_every_position None text)
   \<and> (\<forall>prev s m. awb_match prev s = Some m \<longleftrightarrow>
        prev \<notin> Some ` {x. is_word x}
        \<and> (\<exists>a p b q c r. s = a @ p @ b @ q @ c @ r
           \<and> length a = 3 \<and> (\<forall>x \<in> set a. is_digit x)
           \<and> (p = [] \<or> (\<exists>x. p = [x] \<and> is_sep x))
           \<and> length b = 4 \<and> (\<forall>x \<in> set b. is_digit x)
           \<and> (q = [] \<or> (\<exists>x. q = [x] \<and> is_sep x))
           \<and> length c = 4 \<and> (\<forall>x \<in> set c. is_digit x)
           \<and> next_char r \<notin> Some ` {x. is_word x} \<and> m = a @ p @ b @ q @ c))
   \<and> (\<forall>a \<in> set (extract_awbs text). length a = 11 \<and> (\<forall>x \<in> set a. is_digit x))
   \<and> extract_awbs ''AWB: 12345678901'' = [''12345678901'']
   \<and> extract_awbs ''AWB 123-4567-8901'' = [''12345678901'']
   \<and> extract_awbs ''123 4567 8901, 123-4567-8901'' = [''12345678901'', ''12345678901'']"
proof -
  have one: "extract_awbs text = map strip_seps (matches_at_every_position None text)"
    by (simp add: extract_awbs_def findall_awb_every_position)
  have two: "length a = 11 \<and> (\<forall>x \<in> set a. is_digit x)" if "a \<in> set (extract_awbs text)" for a
  proof -
    from that one obtain m where "m \<in> set (matches_at_every_position None text)" "a = strip_seps m"
      by auto
    with matches_are_matches [of m None "text"] strip_seps_match show ?thesis by blast
  qed
  have e1: "extract_awbs ''AWB: 12345678901'' = [''12345678901'']" by code_simp
  have e2: "extract_awbs ''AWB 123-4567-8901'' = [''12345678901'']" by code_simp
  have e3: "extract_awbs ''123 4567 8901, 123-4567-8901'' = [''12345678901'', ''12345678901'']"
    by code_simp
  from one two e1 e2 e3 awb_match_iff show ?thesis by blast
qed

text \<open>The theorem at a text with one match: the AWB it yields has eleven digits.\<close>

theorem extract_awbs_all_matches_in_order_witness:
  "extract_awbs ''AWB 123-4567-8901'' \<noteq> []
   \<and> (\<exists>a. a \<in> set (extract_awbs ''AWB 123-4567-8901'') \<and> length a = 11
         \<and> list_all is_digit a)"
proof -
  have ne: "extract_awbs ''AWB 123-4567-8901'' \<noteq> []" by code_simp
  then obtain a where "a \<in> set (extract_awbs ''AWB 123-4567-8901'')"
    by (cases "extract_awbs ''AWB 123-4567-8901''") auto
  with extract_awbs_all_matches_in_order [of "''AWB 123-4567-8901''"] have "a \<in> set (extract_awbs ''AWB 123-4567-8901'')
      \<and> length a = 11 \<and> list_all is_digit a"
    by (simp add: list_all_iff)
  with ne show ?thesis by blast
qed

section \<open>The format check of check\_awb\_consistency\<close>

text \<open>
  The pattern of the format check accepts eleven digits and also eleven digits followed
  by one newline. Each shipment adds at most one anomaly: MISSING\_AWB for the AWB
  "MISSING", else AWB\_MISMATCH when the pattern does not accept the AWB.
\<close>

lemma clean_pattern_match_iff:
  "clean_pattern_match s \<longleftrightarrow>
     (\<exists>d. (s = d \<or> s = d @ [CHR 0x0A]) \<and> length d = 11 \<and> (\<forall>c \<in> set d. is_digit c))"
proof (cases "digits 11 s")
  case None
  then have "\<not> (\<exists>a r. s = a @ r \<and> length a = 11 \<and> (\<forall>c \<in> set a. is_digit c))"
    by (simp add: digits_None_iff)
  then have no: "\<not> (s = a @ r \<and> length a = 11 \<and> (\<forall>c \<in> set a. is_digit c))" for a r
    by blast
  have "\<not> (\<exists>d. (s = d \<or> s = d @ [CHR 0x0A]) \<and> length d = 11 \<and> (\<forall>c \<in> set d. is_digit c))"
  proof
    assume "\<exists>d. (s = d \<or> s = d @ [CHR 0x0A]) \<and> length d = 11 \<and> (\<forall>c \<in> set d. is_digit c)"
    then obtain d where d: "s = d \<or> s = d @ [CHR 0x0A]" "length d = 11" "\<forall>c \<in> set d. is_digit c"
      by blast
    from d(1) show False
    proof
      assume "s = d"
      with d no [of d "[]"] show False by simp
    next
      assume "s = d @ [CHR 0x0A]"
      with d no [of d "[CHR 0x0A]"] show False by simp
    qed
  qed
  with None show ?thesis by (simp add: clean_pattern_match_def)
next
  case (Some dr)
  obtain d r where dr: "dr = (d, r)" by (cases dr)
  with Some have d: "s = d @ r" "length d = 11" "\<forall>c \<in> set d. is_digit c"
    by (simp_all add: digits_iff)
  have "clean_pattern_match s \<longleftrightarrow> r = [] \<or> r = [CHR 0x0A]"
    using Some dr by (simp add: clean_pattern_match_def)
  also have "\<dots> \<longleftrightarrow>
      (\<exists>d'. (s = d' \<or> s = d' @ [CHR 0x0A]) \<and> length d' = 11 \<and> (\<forall>c \<in> set d'. is_digit c))"
  proof
    assume "r = [] \<or> r = [CHR 0x0A]"
    with d have "(s = d \<or> s = d @ [CHR 0x0A]) \<and> length d = 11 \<and> (\<forall>c \<in> set d. is_digit c)"
      by auto
    then show "\<exists>d'. (s = d' \<or> s = d' @ [CHR 0x0A]) \<and> length d' = 11 \<and> (\<forall>c \<in> set d'. is_digit c)"
      by blast
  next
    assume "\<exists>d'. (s = d' \<or> s = d' @ [CHR 0x0A]) \<and> length d' = 11 \<and> (\<forall>c \<in> set d'. is_digit c)"
    then obtain d' where d': "s = d' \<or> s = d' @ [CHR 0x0A]" "length d' = 11" by blast
    from d'(1) show "r = [] \<or> r = [CHR 0x0A]"
    proof
      assume "s = d'"
      with d d'(2) show ?thesis by auto
    next
      assume "s = d' @ [CHR 0x0A]"
      with d d'(2) show ?thesis by (auto simp: append_eq_append_conv)
    qed
  qed
  finally show ?thesis .
qed

lemma awb_consistency_step_append:
  "awb_consistency_step anoms s = anoms @ awb_consistency_step [] s"
  by (simp add: awb_consistency_step_def)

lemma awb_consistency_step_summary:
  "map (\<lambda>a. (anomaly_type a, severity a)) (awb_consistency_step [] s)
     = (if awb s = ''MISSING'' then [(MISSING_AWB, ERROR)]
        else if clean_pattern_match (awb s) then []
        else [(AWB_MISMATCH, WARNING)])"
  by (simp add: awb_consistency_step_def MISSING_def)

lemma check_awb_consistency_per_shipment:
  "map (\<lambda>a. (anomaly_type a, severity a)) (check_awb_consistency ss)
     = concat (map (\<lambda>s. if awb s = ''MISSING'' then [(MISSING_AWB, ERROR)]
                         else if clean_pattern_match (awb s) then []
                         else [(AWB_MISMATCH, WARNING)]) ss)"
proof -
  have "check_awb_consistency ss = [] @ concat (map (awb_consistency_step []) ss)"
    unfolding check_awb_consistency_def
    by (rule foldl_append_step) (rule awb_consistency_step_append)
  then show ?thesis
    by (simp add: map_concat comp_def awb_consistency_step_summary)
qed

text \<open>
  C5: a shipment whose AWB is neither "MISSING" nor exactly eleven digits yields one
  AWB\_MISMATCH anomaly. The check evaluated at an AWB of eleven digits followed by a
  newline, which is twelve characters: it reports nothing. At the three AWBs of the spec,
  "MISSING", "123" and "12345678901", it reports as the claim says.
\<close>

theorem check_awb_consistency_trailing_newline:
  "check_awb_consistency [test_shipment (''12345678901'' @ [CHR 0x0A]) [] [''msg_001'']] = []
   \<and> length (''12345678901'' @ [CHR 0x0A]) = 12
   \<and> map (\<lambda>a. (anomaly_type a, severity a))
        (check_awb_consistency [test_shipment ''MISSING'' [] [], test_shipment ''123'' [] [],
           test_shipment ''12345678901'' [] []])
      = [(MISSING_AWB, ERROR), (AWB_MISMATCH, WARNING)]"
  by code_simp

end
